theory Spec2Isabelle
  imports Main
begin

section \<open>The inih line parser (src/lib/inih/ini.c) as functions of HOL\<close>

text \<open>
  The parser reads a source line by line through an fgets-style reader, classifies each
  line and calls the handler of the caller. The model follows \<^verbatim>\<open>ini.c\<close> function
  by function.

  \<^item> A C string is the list of its bytes before the terminating NUL. A pointer into a
    string is the suffix that starts there; \<open>*p\<close> is \<open>deref\<close> of that suffix, which is
    NUL at the end of the string. Writing NUL at a pointer cuts the string there.
  \<^item> The options of \<^verbatim>\<open>ini.h\<close> are preprocessor macros; the model takes them as a
    record, so that statements can name the option they depend on.
    \<open>default_config\<close> holds the values \<^verbatim>\<open>ini.h\<close> gives when nothing overrides
    them. The line buffer is the stack array (\<^verbatim>\<open>INI_USE_STACK\<close> is 1 in this
    build), so the branches under \<^verbatim>\<open>!INI_USE_STACK\<close> are compiled out and are not
    modelled. \<^verbatim>\<open>INI_HANDLER_LINENO\<close> is 0: the handler gets no line number.
  \<^item> The local variables of \<^verbatim>\<open>ini_parse_stream\<close> that live across lines are the
    fields of \<open>ini_state\<close>. The field \<open>trace\<close> is a history variable that the C code
    does not have: it lists, in order, every handler call, every accepted section header
    and every place where the code reaches one of its \<^verbatim>\<open>error = lineno\<close> sites.
    Nothing in the model reads it.
  \<^item> \<open>lineno\<close> and \<open>error\<close> are C \<^verbatim>\<open>int\<close>s. They count lines, signed overflow is
    undefined in C, and the model takes them as unbounded integers.
  \<^item> The handler is a function from the user data and its three string arguments (a NULL
    pointer is \<open>None\<close>) to its \<^verbatim>\<open>int\<close> result and the new user data.
\<close>

subsection \<open>Characters and C strings\<close>

definition NUL :: char where
  "NUL = CHR 0x00"

definition NL :: char where
  "NL = CHR 0x0A"

text \<open>\<^verbatim>\<open>isspace\<close> in the C locale: space, \<^verbatim>\<open>\t \n \v \f \r\<close>.\<close>

definition isspace :: "char \<Rightarrow> bool" where
  "isspace c = (c = CHR '' '' \<or> c = CHR 0x09 \<or> c = CHR 0x0A \<or> c = CHR 0x0B
                \<or> c = CHR 0x0C \<or> c = CHR 0x0D)"

text \<open>The C string held by a buffer: its bytes up to the first NUL.\<close>

definition cstr :: "string \<Rightarrow> string" where
  "cstr buf = takeWhile (\<lambda>c. c \<noteq> NUL) buf"

definition strlen :: "string \<Rightarrow> nat" where
  "strlen buf = length (cstr buf)"

fun deref :: "string \<Rightarrow> char" where
  "deref [] = NUL"
| "deref (c # s) = c"

text \<open>
  \<^verbatim>\<open>strchr(chars, c) != NULL\<close>. The terminating NUL counts as part of the string, so
  \<^verbatim>\<open>strchr\<close> finds \<open>c = NUL\<close> in every string.
\<close>

definition strchr :: "string \<Rightarrow> char \<Rightarrow> bool" where
  "strchr chars c = (c = NUL \<or> c \<in> set chars)"

subsection \<open>Configuration (the macros of ini.h)\<close>

record ini_config =
  allow_multiline :: bool
  allow_bom :: bool
  start_comment_prefixes :: string
  allow_inline_comments :: bool
  inline_comment_prefixes :: string
  max_line :: nat
  stop_on_first_error :: bool
  call_handler_on_new_section :: bool
  allow_no_value :: bool

definition default_config :: ini_config where
  "default_config =
     \<lparr> allow_multiline = True, allow_bom = True, start_comment_prefixes = '';#'',
       allow_inline_comments = True, inline_comment_prefixes = '';'',
       max_line = 200, stop_on_first_error = False,
       call_handler_on_new_section = False, allow_no_value = False \<rparr>"

definition MAX_SECTION :: nat where
  "MAX_SECTION = 50"

definition MAX_NAME :: nat where
  "MAX_NAME = 50"

subsection \<open>The string helpers\<close>

text \<open>
  \<^verbatim>\<open>ini_rstrip(s, end)\<close> walks back from the terminator and overwrites whitespace
  with NUL until it meets a character that is not whitespace or reaches \<open>s\<close>.
\<close>

definition ini_rstrip :: "string \<Rightarrow> string" where
  "ini_rstrip s = rev (dropWhile isspace (rev s))"

definition ini_lskip :: "string \<Rightarrow> string" where
  "ini_lskip s = dropWhile isspace s"

text \<open>
  \<^verbatim>\<open>ini_find_chars_or_comment(s, chars)\<close> returns a pointer into \<open>s\<close>; the model
  returns its distance from \<open>s\<close>. \<open>chars\<close> is \<open>None\<close> for a NULL pointer.
  \<open>find_comment\<close> is the loop under \<^verbatim>\<open>INI_ALLOW_INLINE_COMMENTS\<close>, with the
  variable \<open>was_space\<close>; \<open>find_plain\<close> is the loop of the other branch.
\<close>

fun find_comment :: "string \<Rightarrow> string option \<Rightarrow> bool \<Rightarrow> string \<Rightarrow> nat" where
  "find_comment pre chars was_space [] = 0"
| "find_comment pre chars was_space (c # s) =
     (if (case chars of None \<Rightarrow> True | Some cs \<Rightarrow> \<not> strchr cs c)
         \<and> \<not> (was_space \<and> strchr pre c)
      then Suc (find_comment pre chars (isspace c) s)
      else 0)"

fun find_plain :: "string option \<Rightarrow> string \<Rightarrow> nat" where
  "find_plain chars [] = 0"
| "find_plain chars (c # s) =
     (if (case chars of None \<Rightarrow> True | Some cs \<Rightarrow> \<not> strchr cs c)
      then Suc (find_plain chars s)
      else 0)"

definition ini_find_chars_or_comment :: "ini_config \<Rightarrow> string \<Rightarrow> string option \<Rightarrow> nat" where
  "ini_find_chars_or_comment cfg s chars =
     (if allow_inline_comments cfg
      then find_comment (inline_comment_prefixes cfg) chars False s
      else find_plain chars s)"

text \<open>\<^verbatim>\<open>ini_strncpy0(dest, src, size)\<close>: at most \<open>size - 1\<close> bytes of \<open>src\<close> (\<open>sz\<close> is \<^verbatim>\<open>size\<close>).\<close>

definition ini_strncpy0 :: "string \<Rightarrow> nat \<Rightarrow> string" where
  "ini_strncpy0 src sz = take (sz - 1) src"

subsection \<open>The reader of ini_parse_string\<close>

text \<open>
  The stream of \<^verbatim>\<open>ini_reader_string\<close> is the context \<open>(ptr, num_left)\<close>: the bytes
  still to read. \<open>reader_loop\<close> is its while loop and returns the bytes written to the
  buffer (before the final NUL) and the bytes left. \<^verbatim>\<open>ini_parse_file\<close> passes
  \<^verbatim>\<open>fgets\<close> instead, which reads a file under the same contract.
\<close>

fun reader_loop :: "int \<Rightarrow> string \<Rightarrow> string \<times> string" where
  "reader_loop num [] = ([], [])"
| "reader_loop num (c # ctx) =
     (if num > 1
      then (if c = NL then ([c], ctx)
            else (let (w, r) = reader_loop (num - 1) ctx in (c # w, r)))
      else ([], c # ctx))"

definition ini_reader_string :: "int \<Rightarrow> string \<Rightarrow> (string \<times> string) option" where
  "ini_reader_string num ctx =
     (if ctx = [] \<or> num < 2 then None else Some (reader_loop num ctx))"

subsection \<open>The state of ini_parse_stream\<close>

datatype failure = TooLong | Rejected | NoBracket | NoSeparator

datatype entry =
    Call int string "string option" "string option"
  | Header int string
  | Failure int failure

record 'u ini_state =
  "section" :: string
  prev_name :: string
  lineno :: int
  error :: int
  user :: 'u
  trace :: "entry list"

type_synonym 'u ini_handler = "'u \<Rightarrow> string \<Rightarrow> string option \<Rightarrow> string option \<Rightarrow> int \<times> 'u"

text \<open>\<^verbatim>\<open>if (!error) error = lineno;\<close>\<close>

definition set_error :: "failure \<Rightarrow> 'u ini_state \<Rightarrow> 'u ini_state" where
  "set_error k st =
     st\<lparr> error := (if error st = 0 then lineno st else error st),
         trace := trace st @ [Failure (lineno st) k] \<rparr>"

text \<open>\<^verbatim>\<open>if (!HANDLER(user, section, name, value) && !error) error = lineno;\<close>\<close>

definition HANDLER :: "'u ini_handler \<Rightarrow> 'u ini_state \<Rightarrow> string option \<Rightarrow> string option
    \<Rightarrow> 'u ini_state" where
  "HANDLER h st name val =
     (let r = h (user st) (section st) name val;
          st' = st\<lparr> user := snd r,
                    trace := trace st @ [Call (lineno st) (section st) name val] \<rparr>
      in if fst r = 0 then set_error Rejected st' else st')"

subsection \<open>One line\<close>

definition BOM :: string where
  "BOM = [CHR 0xEF, CHR 0xBB, CHR 0xBF]"

text \<open>
  The body of the loop from \<^verbatim>\<open>start = line\<close> on (lines 173 to 251), with one
  definition for each branch. \<open>line\<close> is the C string in the buffer; \<open>lineno\<close> has
  been incremented.

  \<open>line_start\<close> is \<open>start\<close> after the byte order mark and the leading whitespace
  (lines 173 to 181, before \<^verbatim>\<open>ini_rstrip\<close>).
\<close>

definition line_start :: "ini_config \<Rightarrow> int \<Rightarrow> string \<Rightarrow> string" where
  "line_start cfg n line =
     ini_lskip (if allow_bom cfg \<and> n = 1 \<and> take 3 line = BOM then drop 3 line else line)"

text \<open>
  Lines 188 to 192: the text of a continuation line without its inline comment. With
  inline comments off the text is \<open>start\<close> as it is.
\<close>

definition strip_comment :: "ini_config \<Rightarrow> string \<Rightarrow> string" where
  "strip_comment cfg start =
     (if allow_inline_comments cfg
      then ini_rstrip (take (ini_find_chars_or_comment cfg start None) start)
      else start)"

text \<open>Lines 188 to 196: a continuation of the value of \<open>prev_name\<close>.\<close>

definition continuation_line :: "ini_config \<Rightarrow> 'u ini_handler \<Rightarrow> 'u ini_state \<Rightarrow> string
    \<Rightarrow> 'u ini_state" where
  "continuation_line cfg h st start =
     HANDLER h st (Some (prev_name st)) (Some (strip_comment cfg start))"

text \<open>Lines 200 to 216: a line that starts with an opening bracket.\<close>

definition section_line :: "ini_config \<Rightarrow> 'u ini_handler \<Rightarrow> 'u ini_state \<Rightarrow> string
    \<Rightarrow> 'u ini_state" where
  "section_line cfg h st start =
     (let e = ini_find_chars_or_comment cfg (drop 1 start) (Some '']'')
      in if deref (drop e (drop 1 start)) = CHR '']'' then
           (let st1 = st\<lparr> section := ini_strncpy0 (take e (drop 1 start)) MAX_SECTION \<rparr>;
                st2 = (if allow_multiline cfg then st1\<lparr> prev_name := [] \<rparr> else st1);
                st3 = st2\<lparr> trace := trace st2 @ [Header (lineno st2) (take e (drop 1 start))] \<rparr>
            in if call_handler_on_new_section cfg then HANDLER h st3 None None else st3)
         else set_error NoBracket st)"

text \<open>
  Lines 225 to 230: the value behind the separator, without its inline comment and
  trimmed. With inline comments off, \<open>end\<close> still points at the separator when
  \<^verbatim>\<open>ini_rstrip(value, end)\<close> is called, and that call changes nothing.
\<close>

definition strip_value :: "ini_config \<Rightarrow> string \<Rightarrow> string" where
  "strip_value cfg value0 =
     (if allow_inline_comments cfg
      then ini_rstrip (ini_lskip (take (ini_find_chars_or_comment cfg value0 None) value0))
      else ini_lskip value0)"

text \<open>Lines 219 to 250: any other line that is not empty.\<close>

definition pair_line :: "ini_config \<Rightarrow> 'u ini_handler \<Rightarrow> 'u ini_state \<Rightarrow> string
    \<Rightarrow> 'u ini_state" where
  "pair_line cfg h st start =
     (let e = ini_find_chars_or_comment cfg start (Some ''=:'');
          c = deref (drop e start)
      in if c = CHR ''='' \<or> c = CHR '':'' then
           (let name = ini_rstrip (take e start);
                val = strip_value cfg (drop (e + 1) start);
                st1 = (if allow_multiline cfg
                       then st\<lparr> prev_name := ini_strncpy0 name MAX_NAME \<rparr> else st)
            in HANDLER h st1 (Some name) (Some val))
         else if allow_no_value cfg then
           HANDLER h st (Some (ini_rstrip (take e start))) None
         else set_error NoSeparator st)"

text \<open>
  The chain of tests of lines 183 to 251. \<open>start > line\<close> holds when the byte order
  mark or leading whitespace has been skipped: \<open>start1\<close> is shorter than \<open>line\<close>.
\<close>

definition parse_line :: "ini_config \<Rightarrow> 'u ini_handler \<Rightarrow> 'u ini_state \<Rightarrow> string \<Rightarrow> 'u ini_state" where
  "parse_line cfg h st line =
     (let start1 = line_start cfg (lineno st) line;
          start = ini_rstrip start1
      in
      if strchr (start_comment_prefixes cfg) (deref start) then st
      else if allow_multiline cfg \<and> prev_name st \<noteq> [] \<and> start \<noteq> []
              \<and> length start1 < length line then continuation_line cfg h st start
      else if deref start = CHR ''['' then section_line cfg h st start
      else if start \<noteq> [] then pair_line cfg h st start
      else st)"

subsection \<open>The loop of ini_parse_stream\<close>

text \<open>Each call of the reader on a stream that is not empty shortens it.\<close>

lemma reader_loop_length: "length (snd (reader_loop num ctx)) \<le> length ctx"
  by (induction num ctx rule: reader_loop.induct) (auto split: prod.splits)

lemma reader_loop_shorter: "1 < num \<Longrightarrow> ctx \<noteq> [] \<Longrightarrow> length (snd (reader_loop num ctx)) < length ctx"
  using reader_loop_length [of "num - 1" "tl ctx"]
  by (cases ctx) (auto split: prod.splits)

lemma ini_reader_string_shorter:
  "ini_reader_string num ctx = Some (w, r) \<Longrightarrow> length r < length ctx"
  using reader_loop_shorter [of num ctx]
  by (auto simp: ini_reader_string_def split: if_splits)

text \<open>
  Lines 164 to 171: the rest of a line that did not fit is read into \<^verbatim>\<open>abyss\<close>, 15
  bytes at a time. \<^verbatim>\<open>abyss[strlen(abyss) - 1]\<close> is a read outside the array when
  the piece starts with a NUL byte; the result is \<open>None\<close> then.
\<close>

function discard :: "'u ini_state \<Rightarrow> string \<Rightarrow> ('u ini_state \<times> string) option" where
  "discard st stream =
     (case ini_reader_string 16 stream of
        None \<Rightarrow> Some (st, stream)
      | Some (abyss, stream') \<Rightarrow>
          (let st' = set_error TooLong st
           in if strlen abyss = 0 then None
              else if last (cstr abyss) = NL then Some (st', stream')
              else discard st' stream'))"
  by pat_completeness auto
termination
  by (relation "measure (\<lambda>(st, stream). length stream)")
     (auto dest: ini_reader_string_shorter)

declare discard.simps [simp del]

lemma discard_length: "discard st stream = Some (st', stream') \<Longrightarrow> length stream' \<le> length stream"
proof (induction st stream rule: discard.induct)
  case (1 st stream)
  show ?case
  proof (cases "ini_reader_string 16 stream")
    case None
    with "1.prems" show ?thesis by (simp add: discard.simps [of st stream])
  next
    case (Some p)
    obtain abyss r where p: "p = (abyss, r)" by (cases p)
    have lt: "length r < length stream"
      using Some p by (auto dest: ini_reader_string_shorter)
    show ?thesis
    proof (cases "strlen abyss = 0 \<or> last (cstr abyss) = NL")
      case True
      with "1.prems" Some p lt show ?thesis
        by (auto simp: discard.simps [of st stream] Let_def split: if_splits)
    next
      case False
      with "1.prems" Some p have "discard (set_error TooLong st) r = Some (st', stream')"
        by (simp add: discard.simps [of st stream] Let_def)
      with "1.IH" [OF Some p [symmetric] refl] False have "length stream' \<le> length r"
        by simp
      with lt show ?thesis by simp
    qed
  qed
qed

text \<open>
  The while loop of \<^verbatim>\<open>ini_parse_stream\<close> (lines 139 to 257). The reader fills the
  buffer, \<open>line\<close> is the C string in it and \<open>offset\<close> its length.
\<close>

function parse_loop :: "ini_config \<Rightarrow> 'u ini_handler \<Rightarrow> 'u ini_state \<Rightarrow> string
    \<Rightarrow> 'u ini_state option" where
  "parse_loop cfg h st stream =
     (case ini_reader_string (int (max_line cfg)) stream of
        None \<Rightarrow> Some st
      | Some (buf, stream1) \<Rightarrow>
          (let line = cstr buf;
               offset = length line;
               st1 = st\<lparr> lineno := lineno st + 1 \<rparr>
           in case (if offset = max_line cfg - 1 \<and> last line \<noteq> NL
                    then discard st1 stream1 else Some (st1, stream1)) of
                None \<Rightarrow> None
              | Some (st2, stream2) \<Rightarrow>
                  (let st3 = parse_line cfg h st2 line
                   in if stop_on_first_error cfg \<and> error st3 \<noteq> 0 then Some st3
                      else parse_loop cfg h st3 stream2)))"
  by pat_completeness auto
termination
proof (relation "measure (\<lambda>(cfg, h, st, stream). length stream)", goal_cases)
  case 1
  show ?case by simp
next
  case (2 cfg h st stream p buf stream1 line offset st1 q st2 stream2 st3)
  have "length stream1 < length stream"
    using 2 by (auto dest: ini_reader_string_shorter)
  moreover have "length stream2 \<le> length stream1"
    using 2 by (auto split: if_splits dest: discard_length)
  ultimately show ?case by simp
qed

declare parse_loop.simps [simp del]

text \<open>
  \<^verbatim>\<open>ini_parse_stream\<close> with the reader of \<^verbatim>\<open>ini_parse_string\<close>. The C function
  returns the field \<open>error\<close> of the final state. The result \<open>None\<close> stands for the
  read outside \<^verbatim>\<open>abyss\<close>, which only a stream with NUL bytes can reach.
\<close>

definition init_state :: "'u \<Rightarrow> 'u ini_state" where
  "init_state u = \<lparr> section = [], prev_name = [], lineno = 0, error = 0, user = u, trace = [] \<rparr>"

definition ini_parse_stream :: "ini_config \<Rightarrow> string \<Rightarrow> 'u ini_handler \<Rightarrow> 'u
    \<Rightarrow> 'u ini_state option" where
  "ini_parse_stream cfg stream h u = parse_loop cfg h (init_state u) stream"

text \<open>
  \<^verbatim>\<open>ini_parse_string_length(string, length, handler, user)\<close> reads the first
  \<open>length\<close> bytes at \<open>string\<close>; \<^verbatim>\<open>ini_parse_string\<close> reads up to the NUL.
\<close>

definition ini_parse_string_length :: "ini_config \<Rightarrow> string \<Rightarrow> nat \<Rightarrow> 'u ini_handler \<Rightarrow> 'u
    \<Rightarrow> 'u ini_state option" where
  "ini_parse_string_length cfg string len h u = ini_parse_stream cfg (take len string) h u"

definition ini_parse_string :: "ini_config \<Rightarrow> string \<Rightarrow> 'u ini_handler \<Rightarrow> 'u
    \<Rightarrow> 'u ini_state option" where
  "ini_parse_string cfg string h u = ini_parse_string_length cfg string (strlen string) h u"

subsection \<open>Reading the trace and the input\<close>

text \<open>
  The handler calls of a trace, each with the line it was made on; the lines of its
  error sites; the section headers it accepted.
\<close>

fun calls :: "entry list \<Rightarrow> (int \<times> string \<times> string option \<times> string option) list" where
  "calls [] = []"
| "calls (Call n s k v # es) = (n, s, k, v) # calls es"
| "calls (Header n t # es) = calls es"
| "calls (Failure n f # es) = calls es"

fun failures :: "entry list \<Rightarrow> int list" where
  "failures [] = []"
| "failures (Call n s k v # es) = failures es"
| "failures (Header n t # es) = failures es"
| "failures (Failure n f # es) = n # failures es"

fun headers :: "entry list \<Rightarrow> string list" where
  "headers [] = []"
| "headers (Call n s k v # es) = headers es"
| "headers (Header n t # es) = t # headers es"
| "headers (Failure n f # es) = headers es"

text \<open>The line of the first error site of a trace, 0 when it has none.\<close>

definition first_failure :: "entry list \<Rightarrow> int" where
  "first_failure tr = (case failures tr of [] \<Rightarrow> 0 | n # ns \<Rightarrow> n)"

text \<open>
  The section that the headers of a trace leave in force: the text of the last one, cut
  by \<open>ini_strncpy0\<close>, and the empty string when there is none.
\<close>

definition section_of :: "entry list \<Rightarrow> string" where
  "section_of tr = (if headers tr = [] then [] else ini_strncpy0 (last (headers tr)) MAX_SECTION)"

text \<open>
  The physical lines of an input: each ends with its line feed, but for a last line that
  the input does not terminate. \<open>first_line\<close> is the first of them and
  \<open>after_line\<close> the input behind it.
\<close>

definition first_line :: "string \<Rightarrow> string" where
  "first_line s = takeWhile (\<lambda>c. c \<noteq> NL) s @ take 1 (dropWhile (\<lambda>c. c \<noteq> NL) s)"

definition after_line :: "string \<Rightarrow> string" where
  "after_line s = drop 1 (dropWhile (\<lambda>c. c \<noteq> NL) s)"

function physical_lines :: "string \<Rightarrow> string list" where
  "physical_lines s = (if s = [] then [] else first_line s # physical_lines (after_line s))"
  by pat_completeness auto
termination
proof (relation "measure length", goal_cases)
  case 1
  show ?case by simp
next
  case (2 s)
  have "length (dropWhile (\<lambda>c. c \<noteq> NL) s) \<le> length s"
    by (rule length_dropWhile_le)
  with 2 show ?case
    by (cases s) (auto simp: after_line_def)
qed

declare physical_lines.simps [simp del]

text \<open>
  A line that the loop passes over: after the byte order mark (on line 1) and the leading
  whitespace it is empty or starts with a comment prefix. This is the test of line 183.
\<close>

definition is_skipped :: "ini_config \<Rightarrow> int \<Rightarrow> string \<Rightarrow> bool" where
  "is_skipped cfg n line =
     strchr (start_comment_prefixes cfg) (deref (ini_rstrip (line_start cfg n line)))"

text \<open>
  The error field agrees with the trace: it is the line of the first error site, the
  error sites are in line order, and each lies on a line already read.
\<close>

definition recorded :: "'u ini_state \<Rightarrow> bool" where
  "recorded st \<longleftrightarrow>
     error st = first_failure (trace st) \<and> sorted (failures (trace st)) \<and>
     (\<forall>n \<in> set (failures (trace st)). 0 < n \<and> n \<le> lineno st)"

text \<open>
  Every handler call in a trace carries the section that the headers before it leave in
  force.
\<close>

definition scoped :: "entry list \<Rightarrow> bool" where
  "scoped tr \<longleftrightarrow> (\<forall>pre n sec k v post. tr = pre @ Call n sec k v # post \<longrightarrow> sec = section_of pre)"

definition in_scope :: "'u ini_state \<Rightarrow> bool" where
  "in_scope st \<longleftrightarrow> scoped (trace st) \<and> section st = section_of (trace st)"

text \<open>
  The events of a trace: its handler calls, and its accepted headers too when the
  handler is not called on a new section.
\<close>

definition emitted :: "ini_config \<Rightarrow> entry list \<Rightarrow> nat" where
  "emitted cfg tr =
     length (calls tr) + (if call_handler_on_new_section cfg then 0 else length (headers tr))"

text \<open>
  \<open>hit chars c\<close>: \<open>c\<close> is one of the characters a scan looks for (none when
  \<open>chars\<close> is NULL). \<open>comment_start cfg s j\<close>: with inline comments on, position
  \<open>j\<close> of \<open>s\<close> holds an inline comment prefix and the character before it is
  whitespace.
\<close>

definition hit :: "string option \<Rightarrow> char \<Rightarrow> bool" where
  "hit chars c = (case chars of None \<Rightarrow> False | Some cs \<Rightarrow> strchr cs c)"

definition comment_start :: "ini_config \<Rightarrow> string \<Rightarrow> nat \<Rightarrow> bool" where
  "comment_start cfg s j \<longleftrightarrow>
     allow_inline_comments cfg \<and> 0 < j \<and> j < length s \<and> isspace (s ! (j - 1)) \<and>
     s ! j \<in> set (inline_comment_prefixes cfg)"

text \<open>The section, the remembered name and the section of every call fit their buffers.\<close>

definition bounded :: "'u ini_state \<Rightarrow> bool" where
  "bounded st \<longleftrightarrow>
     length (section st) < MAX_SECTION \<and> length (prev_name st) < MAX_NAME \<and>
     (\<forall>e \<in> set (calls (trace st)). length (fst (snd e)) < MAX_SECTION)"

text \<open>
  A whole physical line that fits the buffer: it ends with its only line feed, holds no
  NUL byte and is shorter than \<open>max_line\<close>.
\<close>

definition whole_line :: "ini_config \<Rightarrow> string \<Rightarrow> bool" where
  "whole_line cfg l \<longleftrightarrow>
     l \<noteq> [] \<and> last l = NL \<and> NL \<notin> set (butlast l) \<and> NUL \<notin> set l \<and> length l < max_line cfg"

text \<open>A handler that accepts every call and keeps no data.\<close>

definition accept :: "unit ini_handler" where
  "accept u s k v = (1, u)"

text \<open>A handler that rejects every call.\<close>

definition reject :: "unit ini_handler" where
  "reject u s k v = (0, u)"

text \<open>The handler calls of a whole parse.\<close>

definition ini_events :: "ini_config \<Rightarrow> string \<Rightarrow> 'u ini_handler \<Rightarrow> 'u
    \<Rightarrow> (int \<times> string \<times> string option \<times> string option) list option" where
  "ini_events cfg string h u =
     (case ini_parse_string cfg string h u of None \<Rightarrow> None | Some st \<Rightarrow> Some (calls (trace st)))"

section \<open>Properties\<close>

subsection \<open>Reading the fields of a state\<close>

lemma calls_append [simp]: "calls (xs @ ys) = calls xs @ calls ys"
  by (induction xs rule: calls.induct) auto

lemma failures_append [simp]: "failures (xs @ ys) = failures xs @ failures ys"
  by (induction xs rule: failures.induct) auto

lemma headers_append [simp]: "headers (xs @ ys) = headers xs @ headers ys"
  by (induction xs rule: headers.induct) auto

lemma set_error_fields [simp]:
  "section (set_error k st) = section st"
  "prev_name (set_error k st) = prev_name st"
  "lineno (set_error k st) = lineno st"
  "user (set_error k st) = user st"
  "error (set_error k st) = (if error st = 0 then lineno st else error st)"
  "trace (set_error k st) = trace st @ [Failure (lineno st) k]"
  by (simp_all add: set_error_def)

lemma HANDLER_fields [simp]:
  "section (HANDLER h st k v) = section st"
  "prev_name (HANDLER h st k v) = prev_name st"
  "lineno (HANDLER h st k v) = lineno st"
  "user (HANDLER h st k v) = snd (h (user st) (section st) k v)"
  "calls (trace (HANDLER h st k v)) = calls (trace st) @ [(lineno st, section st, k, v)]"
  "headers (trace (HANDLER h st k v)) = headers (trace st)"
  by (simp_all add: HANDLER_def Let_def)

lemma HANDLER_error:
  "error (HANDLER h st k v) =
     (if fst (h (user st) (section st) k v) = 0 \<and> error st = 0 then lineno st else error st)"
  by (simp add: HANDLER_def Let_def)

lemma HANDLER_failures:
  "failures (trace (HANDLER h st k v)) =
     failures (trace st) @ (if fst (h (user st) (section st) k v) = 0 then [lineno st] else [])"
  by (simp add: HANDLER_def Let_def)

lemma parse_loop_Nil: "parse_loop cfg h st [] = Some st"
  by (simp add: parse_loop.simps [of cfg h st "[]"] ini_reader_string_def)

lemma parse_loop_Cons:
  "parse_loop cfg h st (c # cs) =
     (case ini_reader_string (int (max_line cfg)) (c # cs) of
        None \<Rightarrow> Some st
      | Some (buf, stream1) \<Rightarrow>
          (let line = cstr buf;
               offset = length line;
               st1 = st\<lparr> lineno := lineno st + 1 \<rparr>
           in case (if offset = max_line cfg - 1 \<and> last line \<noteq> NL
                    then discard st1 stream1 else Some (st1, stream1)) of
                None \<Rightarrow> None
              | Some (st2, stream2) \<Rightarrow>
                  (let st3 = parse_line cfg h st2 line
                   in if stop_on_first_error cfg \<and> error st3 \<noteq> 0 then Some st3
                      else parse_loop cfg h st3 stream2)))"
  by (rule parse_loop.simps)

lemmas eval_defs = parse_loop_Nil parse_loop_Cons ini_parse_string_def ini_parse_string_length_def
  ini_parse_stream_def init_state_def strlen_def cstr_def NUL_def NL_def ini_reader_string_def
  parse_line_def line_start_def continuation_line_def section_line_def pair_line_def
  strip_comment_def strip_value_def Let_def default_config_def BOM_def ini_lskip_def ini_rstrip_def strchr_def
  isspace_def ini_find_chars_or_comment_def ini_strncpy0_def MAX_SECTION_def MAX_NAME_def
  ini_events_def

subsection \<open>Physical lines and the reader\<close>

lemma first_line_Nil [simp]: "first_line [] = []"
  by (simp add: first_line_def)

lemma after_line_Nil [simp]: "after_line [] = []"
  by (simp add: after_line_def)

lemma first_line_Cons [simp]: "first_line (c # s) = (if c = NL then [NL] else c # first_line s)"
  by (simp add: first_line_def)

lemma after_line_Cons [simp]: "after_line (c # s) = (if c = NL then s else after_line s)"
  by (simp add: after_line_def)

lemma first_line_after_line [simp]: "first_line s @ after_line s = s"
  by (induction s) auto

lemma first_line_eq_Nil [simp]: "first_line s = [] \<longleftrightarrow> s = []"
  by (cases s) auto

lemma length_first_line: "length (first_line s) \<le> length s"
  by (induction s) auto

lemma drop_first_line: "drop (length (first_line s)) s = after_line s"
  by (induction s) auto

lemma take_first_line: "k \<le> length (first_line s) \<Longrightarrow> take k s = take k (first_line s)"
  by (induction s arbitrary: k) (auto simp: take_Cons split: nat.splits)

lemma first_line_drop:
  "NL \<notin> set (take k s) \<Longrightarrow>
   first_line (drop k s) = drop k (first_line s) \<and> after_line (drop k s) = after_line s"
  by (induction s arbitrary: k) (auto simp: take_Cons drop_Cons split: nat.splits)

lemma take_no_NL:
  "k \<le> length (first_line s) \<Longrightarrow> last (take k s) \<noteq> NL \<Longrightarrow> NL \<notin> set (take k s)"
  by (induction s arbitrary: k) (auto simp: take_Cons split: nat.splits if_splits)

lemma take_last_NL:
  "k \<le> length (first_line s) \<Longrightarrow> 0 < k \<Longrightarrow> last (take k s) = NL \<Longrightarrow> k = length (first_line s)"
  by (induction s arbitrary: k) (auto simp: take_Cons split: nat.splits if_splits)

lemma reader_loop_eq:
  "reader_loop n s = (take (min (nat (n - 1)) (length (first_line s))) s,
                      drop (min (nat (n - 1)) (length (first_line s))) s)"
proof (induction s arbitrary: n)
  case Nil
  show ?case by simp
next
  case (Cons c s)
  show ?case
  proof (cases "1 < n")
    case False
    then show ?thesis by simp
  next
    case True
    then have n: "nat (n - 1) = Suc (nat (n - 1 - 1))" by simp
    show ?thesis
      using True Cons [of "n - 1"] by (simp add: n del: nat_diff_distrib)
  qed
qed

lemma cstr_id: "NUL \<notin> set s \<Longrightarrow> cstr s = s"
  by (auto simp: cstr_def)

subsection \<open>One turn of the loop\<close>

text \<open>
  On a stream whose first line holds no NUL byte, one turn of the loop reads that line,
  cut to \<open>max_line - 1\<close> bytes, and goes on behind its line feed. \<open>k\<close> counts
  the pieces the discard loop has read.
\<close>

lemma discard_Nil: "discard st [] = Some (st, [])"
  by (simp add: discard.simps [of st "[]"] ini_reader_string_def)

lemma funpow_set_error_Suc: "(set_error k ^^ n) (set_error k st) = (set_error k ^^ Suc n) st"
  by (simp add: funpow_swap1)

lemma discard_line:
  "NUL \<notin> set (first_line s) \<Longrightarrow>
   \<exists>k. (k = 0 \<longleftrightarrow> s = []) \<and> discard st s = Some ((set_error TooLong ^^ k) st, after_line s)"
proof (induction s arbitrary: st rule: length_induct)
  case (1 s)
  show ?case
  proof (cases "s = []")
    case True
    then show ?thesis by (simp add: discard_Nil)
  next
    case False
    define k1 where "k1 = min 15 (length (first_line s))"
    have k1: "0 < k1" "k1 \<le> length (first_line s)"
      using False by (auto simp: k1_def)
    have rd: "ini_reader_string 16 s = Some (take k1 s, drop k1 s)"
      using False by (simp add: ini_reader_string_def reader_loop_eq k1_def)
    have tk: "take k1 s = take k1 (first_line s)"
      using k1 by (simp add: take_first_line)
    have nn: "NUL \<notin> set (take k1 s)"
      using "1.prems" tk by (auto dest: in_set_takeD)
    have cs: "cstr (take k1 s) = take k1 s"
      using nn by (rule cstr_id)
    have ne: "strlen (take k1 s) \<noteq> 0"
      using k1 False by (simp add: strlen_def cs)
    show ?thesis
    proof (cases "last (take k1 s) = NL")
      case True
      then have "k1 = length (first_line s)"
        using k1 by (auto dest: take_last_NL)
      then have "drop k1 s = after_line s"
        by (simp add: drop_first_line)
      then have "discard st s = Some ((set_error TooLong ^^ Suc 0) st, after_line s)"
        using rd cs ne True by (simp add: discard.simps [of st s] Let_def)
      with False show ?thesis by (intro exI [of _ "Suc 0"]) simp
    next
      case nl: False
      have noNL: "NL \<notin> set (take k1 s)"
        using k1 nl by (auto dest: take_no_NL)
      have fd: "first_line (drop k1 s) = drop k1 (first_line s)" "after_line (drop k1 s) = after_line s"
        using first_line_drop [OF noNL] by simp_all
      have "NUL \<notin> set (first_line (drop k1 s))"
        using "1.prems" fd by (auto dest: in_set_dropD)
      moreover have "length (drop k1 s) < length s"
        using k1 False by simp
      ultimately have "\<exists>k. (k = 0 \<longleftrightarrow> drop k1 s = []) \<and>
          discard (set_error TooLong st) (drop k1 s)
              = Some ((set_error TooLong ^^ k) (set_error TooLong st), after_line (drop k1 s))"
        using "1.IH" [rule_format, of "drop k1 s" "set_error TooLong st"] by simp
      then obtain k where
        k: "discard (set_error TooLong st) (drop k1 s)
              = Some ((set_error TooLong ^^ k) (set_error TooLong st), after_line (drop k1 s))"
        by (elim exE conjE)
      have unf: "discard st s = discard (set_error TooLong st) (drop k1 s)"
        using rd cs ne nl by (simp add: discard.simps [of st s] Let_def)
      have "discard st s = Some ((set_error TooLong ^^ Suc k) st, after_line s)"
        unfolding unf k fd funpow_set_error_Suc ..
      with False show ?thesis by (intro exI [of _ "Suc k"]) simp
    qed
  qed
qed

lemma parse_loop_read:
  assumes "ini_reader_string (int (max_line cfg)) s = Some (buf, s1)"
  shows "parse_loop cfg h st s =
     (case (if length (cstr buf) = max_line cfg - 1 \<and> last (cstr buf) \<noteq> NL
            then discard (st\<lparr> lineno := lineno st + 1 \<rparr>) s1
            else Some (st\<lparr> lineno := lineno st + 1 \<rparr>, s1)) of
        None \<Rightarrow> None
      | Some (st2, s2) \<Rightarrow>
          (let st3 = parse_line cfg h st2 (cstr buf)
           in if stop_on_first_error cfg \<and> error st3 \<noteq> 0 then Some st3
              else parse_loop cfg h st3 s2))"
  using assms by (simp add: parse_loop.simps [of cfg h st s] Let_def)

lemma parse_loop_step:
  assumes "s \<noteq> []" and "2 \<le> max_line cfg" and "NUL \<notin> set (first_line s)"
  shows "\<exists>k. (k = 0 \<longleftrightarrow> length (first_line s) < max_line cfg) \<and>
     parse_loop cfg h st s =
       (let st3 = parse_line cfg h ((set_error TooLong ^^ k) (st\<lparr> lineno := lineno st + 1 \<rparr>))
                    (take (max_line cfg - 1) (first_line s))
        in if stop_on_first_error cfg \<and> error st3 \<noteq> 0 then Some st3
           else parse_loop cfg h st3 (after_line s))"
proof -
  define m where "m = max_line cfg"
  define k1 where "k1 = min (m - 1) (length (first_line s))"
  define st1 where "st1 = st\<lparr> lineno := lineno st + 1 \<rparr>"
  define L where "L = take (m - 1) (first_line s)"
  have k1: "0 < k1" "k1 \<le> length (first_line s)" "k1 \<le> m - 1"
    using assms by (auto simp: k1_def m_def)
  have rd: "ini_reader_string (int (max_line cfg)) s = Some (take k1 s, drop k1 s)"
    using assms by (simp add: ini_reader_string_def reader_loop_eq k1_def m_def nat_diff_distrib')
  have "take k1 s = take k1 (first_line s)"
    using k1(2) by (rule take_first_line)
  also have "\<dots> = L"
    by (simp add: L_def k1_def min_def)
  finally have tk: "take k1 s = L" .
  have nn: "NUL \<notin> set L"
    using assms(3) by (auto simp: L_def dest: in_set_takeD)
  have cs: "cstr (take k1 s) = L"
    using nn tk by (simp add: cstr_id)
  have len: "length L = k1"
    by (simp add: L_def k1_def)
  note unf = parse_loop_read [OF rd, of h st, unfolded cs, folded m_def st1_def]
  show ?thesis
  proof (cases "k1 = m - 1 \<and> last L \<noteq> NL")
    case False
    have kf: "k1 = length (first_line s)"
    proof (cases "k1 = m - 1")
      case True
      with False have "last L = NL" by simp
      then have "last (take k1 s) = NL" by (simp only: tk)
      with k1 show ?thesis by (auto dest: take_last_NL)
    next
      case False
      then show ?thesis by (simp add: k1_def)
    qed
    then have lt: "length (first_line s) < m"
      using k1 assms(2) by (simp add: m_def)
    have cond: "(length L = m - 1 \<and> last L \<noteq> NL) = False"
      using False len by simp
    have dr: "drop k1 s = after_line s"
      by (simp add: kf drop_first_line)
    have "parse_loop cfg h st s =
       (let st3 = parse_line cfg h st1 L
        in if stop_on_first_error cfg \<and> error st3 \<noteq> 0 then Some st3
           else parse_loop cfg h st3 (after_line s))"
      unfolding unf cond dr by simp
    then show ?thesis
      using lt by (intro exI [of _ 0]) (simp add: m_def st1_def L_def)
  next
    case True
    then have noNL: "NL \<notin> set (take k1 s)"
      using k1 by (auto simp: tk [symmetric] dest: take_no_NL)
    have fd: "first_line (drop k1 s) = drop k1 (first_line s)" "after_line (drop k1 s) = after_line s"
      using first_line_drop [OF noNL] by simp_all
    have "NUL \<notin> set (first_line (drop k1 s))"
      using assms(3) fd by (auto dest: in_set_dropD)
    then have "\<exists>k. (k = 0 \<longleftrightarrow> drop k1 s = []) \<and>
        discard st1 (drop k1 s) = Some ((set_error TooLong ^^ k) st1, after_line (drop k1 s))"
      by (rule discard_line)
    then obtain k where k0: "k = 0 \<longleftrightarrow> drop k1 s = []"
      and k: "discard st1 (drop k1 s) = Some ((set_error TooLong ^^ k) st1, after_line s)"
      unfolding fd by (elim exE conjE)
    have cond: "(length L = m - 1 \<and> last L \<noteq> NL) = True"
      using True len by simp
    have eq: "parse_loop cfg h st s =
       (let st3 = parse_line cfg h ((set_error TooLong ^^ k) st1) L
        in if stop_on_first_error cfg \<and> error st3 \<noteq> 0 then Some st3
           else parse_loop cfg h st3 (after_line s))"
      unfolding unf cond k by simp
    have "drop k1 s = [] \<longleftrightarrow> length (first_line s) < m"
    proof
      assume "drop k1 s = []"
      then have "length s \<le> m - 1" using True by simp
      with length_first_line [of s] assms(2) show "length (first_line s) < m"
        by (simp add: m_def)
    next
      assume "length (first_line s) < m"
      with True k1 have "k1 = length (first_line s)" by simp
      with fd(1) have "first_line (drop k1 s) = []" by simp
      then show "drop k1 s = []" by simp
    qed
    with k0 eq show ?thesis
      by (intro exI [of _ k]) (simp add: m_def st1_def L_def)
  qed
qed

subsection \<open>The branches of one line\<close>

lemma HANDLER_trace:
  "trace (HANDLER h st k v) =
     trace st @ Call (lineno st) (section st) k v #
       (if fst (h (user st) (section st) k v) = 0 then [Failure (lineno st) Rejected] else [])"
  by (simp add: HANDLER_def Let_def)

lemma funpow_set_error_fields [simp]:
  "section ((set_error k ^^ n) st) = section st"
  "prev_name ((set_error k ^^ n) st) = prev_name st"
  "lineno ((set_error k ^^ n) st) = lineno st"
  "user ((set_error k ^^ n) st) = user st"
  by (induction n) simp_all

lemma funpow_set_error_error:
  "error ((set_error k ^^ n) st) = (if n = 0 \<or> error st \<noteq> 0 then error st else lineno st)"
  by (induction n) auto

lemma funpow_set_error_trace:
  "trace ((set_error k ^^ n) st) = trace st @ replicate n (Failure (lineno st) k)"
  by (induction n) (simp_all add: replicate_append_same)

lemma parse_line_cases [case_names skip cont header nobracket pair novalue nosep]:
  obtains
    (skip) "is_skipped cfg (lineno st) line" "parse_line cfg h st line = st"
  | (cont) v where "\<not> is_skipped cfg (lineno st) line" "allow_multiline cfg" "prev_name st \<noteq> []"
      "parse_line cfg h st line = HANDLER h st (Some (prev_name st)) (Some v)"
  | (header) t where "\<not> is_skipped cfg (lineno st) line"
      "parse_line cfg h st line =
         (let st3 = st\<lparr> section := ini_strncpy0 t MAX_SECTION,
                          prev_name := (if allow_multiline cfg then [] else prev_name st),
                          trace := trace st @ [Header (lineno st) t] \<rparr>
          in if call_handler_on_new_section cfg then HANDLER h st3 None None else st3)"
  | (nobracket) "\<not> is_skipped cfg (lineno st) line"
      "parse_line cfg h st line = set_error NoBracket st"
  | (pair) name v where "\<not> is_skipped cfg (lineno st) line"
      "parse_line cfg h st line =
         HANDLER h (st\<lparr> prev_name := (if allow_multiline cfg then ini_strncpy0 name MAX_NAME
                                         else prev_name st) \<rparr>) (Some name) (Some v)"
  | (novalue) name where "\<not> is_skipped cfg (lineno st) line" "allow_no_value cfg"
      "parse_line cfg h st line = HANDLER h st (Some name) None"
  | (nosep) "\<not> is_skipped cfg (lineno st) line" "\<not> allow_no_value cfg"
      "parse_line cfg h st line = set_error NoSeparator st"
proof (cases "is_skipped cfg (lineno st) line")
  case True
  then have "parse_line cfg h st line = st"
    by (simp add: parse_line_def is_skipped_def Let_def)
  with True show thesis by (rule skip)
next
  case ns: False
  define start1 where "start1 = line_start cfg (lineno st) line"
  define start where "start = ini_rstrip start1"
  have ns': "\<not> strchr (start_comment_prefixes cfg) (deref start)"
    using ns by (simp add: is_skipped_def start_def start1_def)
  have ne: "start \<noteq> []"
    using ns' by (auto simp: strchr_def)
  show thesis
  proof (cases "allow_multiline cfg \<and> prev_name st \<noteq> [] \<and> length start1 < length line")
    case True
    then have "parse_line cfg h st line = continuation_line cfg h st start"
      using ns' ne by (simp add: parse_line_def Let_def start_def start1_def)
    then show thesis
      using ns True by (intro cont) (simp_all add: continuation_line_def Let_def)
  next
    case nc: False
    show thesis
    proof (cases "deref start = CHR ''[''")
      case True
      then have eq: "parse_line cfg h st line = section_line cfg h st start"
        using ns' ne nc by (auto simp: parse_line_def Let_def start_def start1_def)
      define e where "e = ini_find_chars_or_comment cfg (drop 1 start) (Some '']'')"
      show thesis
      proof (cases "deref (drop e (drop 1 start)) = CHR '']''")
        case True
        then have "section_line cfg h st start =
           (let st3 = st\<lparr> section := ini_strncpy0 (take e (drop 1 start)) MAX_SECTION,
                          prev_name := (if allow_multiline cfg then [] else prev_name st),
                          trace := trace st @ [Header (lineno st) (take e (drop 1 start))] \<rparr>
            in if call_handler_on_new_section cfg then HANDLER h st3 None None else st3)"
          by (simp add: section_line_def Let_def e_def)
        with eq ns show thesis by (intro header) simp_all
      next
        case False
        then have "section_line cfg h st start = set_error NoBracket st"
          by (simp add: section_line_def Let_def e_def)
        with eq ns show thesis by (intro nobracket) simp_all
      qed
    next
      case nb: False
      then have eq: "parse_line cfg h st line = pair_line cfg h st start"
        using ns' ne nc by (auto simp: parse_line_def Let_def start_def start1_def)
      define e where "e = ini_find_chars_or_comment cfg start (Some ''=:'')"
      show thesis
      proof (cases "deref (drop e start) = CHR ''='' \<or> deref (drop e start) = CHR '':''")
        case True
        then have "\<exists>name v. pair_line cfg h st start =
            HANDLER h (st\<lparr> prev_name := (if allow_multiline cfg then ini_strncpy0 name MAX_NAME
                                         else prev_name st) \<rparr>) (Some name) (Some v)"
          by (auto simp: pair_line_def Let_def e_def)
        with eq ns show thesis by (auto intro: pair)
      next
        case False
        show thesis
        proof (cases "allow_no_value cfg")
          case True
          with False have "pair_line cfg h st start = HANDLER h st (Some (ini_rstrip (take e start))) None"
            by (simp add: pair_line_def Let_def e_def)
          with eq ns True show thesis by (intro novalue) simp_all
        next
          case nv: False
          with False have "pair_line cfg h st start = set_error NoSeparator st"
            by (simp add: pair_line_def Let_def e_def)
          with eq ns nv show thesis by (intro nosep) simp_all
        qed
      qed
    qed
  qed
qed

subsection \<open>Induction over the loop\<close>

lemma parse_loop_small: "max_line cfg < 2 \<Longrightarrow> parse_loop cfg h st s = Some st"
  by (simp add: parse_loop.simps [of cfg h st s] ini_reader_string_def)

lemma length_after_line: "s \<noteq> [] \<Longrightarrow> length (after_line s) < length s"
proof -
  assume "s \<noteq> []"
  then have "0 < length (first_line s)" by (cases s) simp_all
  moreover have "length (first_line s) + length (after_line s) = length (first_line s @ after_line s)"
    by (simp only: length_append)
  moreover have "length (first_line s @ after_line s) = length s"
    by simp
  ultimately show ?thesis by linarith
qed

lemma set_first_line: "set (first_line s) \<subseteq> set s"
  by (induction s) auto

lemma set_after_line: "set (after_line s) \<subseteq> set s"
  by (induction s) auto

lemma parse_loop_rule:
  assumes nul: "NUL \<notin> set s" and m: "2 \<le> max_line cfg"
    and nil: "\<And>st. P st [] st"
    and stop: "\<And>st s k st3. \<lbrakk>s \<noteq> []; NUL \<notin> set s;
        (k = 0) = (length (first_line s) < max_line cfg);
        st3 = parse_line cfg h ((set_error TooLong ^^ k) (st\<lparr> lineno := lineno st + 1 \<rparr>))
                (take (max_line cfg - 1) (first_line s));
        stop_on_first_error cfg; error st3 \<noteq> 0\<rbrakk> \<Longrightarrow> P st s st3"
    and step: "\<And>st s k st3 st'. \<lbrakk>s \<noteq> []; NUL \<notin> set s;
        (k = 0) = (length (first_line s) < max_line cfg);
        st3 = parse_line cfg h ((set_error TooLong ^^ k) (st\<lparr> lineno := lineno st + 1 \<rparr>))
                (take (max_line cfg - 1) (first_line s));
        \<not> (stop_on_first_error cfg \<and> error st3 \<noteq> 0);
        P st3 (after_line s) st'\<rbrakk> \<Longrightarrow> P st s st'"
  shows "\<exists>st'. parse_loop cfg h st s = Some st' \<and> P st s st'"
  using nul
proof (induction s arbitrary: st rule: length_induct)
  case (1 s)
  show ?case
  proof (cases "s = []")
    case True
    then show ?thesis by (simp add: parse_loop_Nil nil)
  next
    case False
    have n1: "NUL \<notin> set (first_line s)"
      using "1.prems" set_first_line [of s] by auto
    from parse_loop_step [OF False m n1, of h st]
    obtain k where k: "(k = 0) = (length (first_line s) < max_line cfg)"
      and eq: "parse_loop cfg h st s =
       (let st3 = parse_line cfg h ((set_error TooLong ^^ k) (st\<lparr> lineno := lineno st + 1 \<rparr>))
                    (take (max_line cfg - 1) (first_line s))
        in if stop_on_first_error cfg \<and> error st3 \<noteq> 0 then Some st3
           else parse_loop cfg h st3 (after_line s))"
      by (elim exE conjE)
    define st3 where "st3 = parse_line cfg h ((set_error TooLong ^^ k) (st\<lparr> lineno := lineno st + 1 \<rparr>))
                    (take (max_line cfg - 1) (first_line s))"
    have eq2: "parse_loop cfg h st s =
        (if stop_on_first_error cfg \<and> error st3 \<noteq> 0 then Some st3
         else parse_loop cfg h st3 (after_line s))"
      using eq by (simp add: st3_def Let_def)
    show ?thesis
    proof (cases "stop_on_first_error cfg \<and> error st3 \<noteq> 0")
      case True
      have "parse_loop cfg h st s = Some st3"
        using True by (simp add: eq2)
      moreover have "P st s st3"
        using False "1.prems" k st3_def True by (intro stop [of s k]) simp_all
      ultimately show ?thesis by (intro exI [of _ st3] conjI)
    next
      case ns: False
      have eq': "parse_loop cfg h st s = parse_loop cfg h st3 (after_line s)"
        using ns by (auto simp: eq2)
      have "NUL \<notin> set (after_line s)"
        using "1.prems" set_after_line [of s] by auto
      with "1.IH" [rule_format, of "after_line s" st3] length_after_line [OF False]
      have "\<exists>st'. parse_loop cfg h st3 (after_line s) = Some st' \<and> P st3 (after_line s) st'"
        by simp
      then obtain st' where st': "parse_loop cfg h st3 (after_line s) = Some st'" "P st3 (after_line s) st'"
        by (elim exE conjE)
      have "P st s st'"
        using False "1.prems" k st3_def ns st'(2) by (intro step [of s k st3]) simp_all
      with eq' st'(1) show ?thesis by (intro exI [of _ st']) simp
    qed
  qed
qed

subsection \<open>What a line leaves unchanged\<close>

lemma continuation_line_lineno [simp]: "lineno (continuation_line cfg h st start) = lineno st"
  by (simp add: continuation_line_def Let_def)

lemma section_line_lineno [simp]: "lineno (section_line cfg h st start) = lineno st"
  by (simp add: section_line_def Let_def)

lemma pair_line_lineno [simp]: "lineno (pair_line cfg h st start) = lineno st"
  by (simp add: pair_line_def Let_def)

lemma parse_line_lineno [simp]: "lineno (parse_line cfg h st line) = lineno st"
  by (simp add: parse_line_def Let_def)

lemma continuation_line_error_kept:
  "error st \<noteq> 0 \<Longrightarrow> error (continuation_line cfg h st start) = error st"
  by (simp add: continuation_line_def Let_def HANDLER_error)

lemma section_line_error_kept:
  "error st \<noteq> 0 \<Longrightarrow> error (section_line cfg h st start) = error st"
  by (simp add: section_line_def Let_def HANDLER_error)

lemma pair_line_error_kept:
  "error st \<noteq> 0 \<Longrightarrow> error (pair_line cfg h st start) = error st"
  by (simp add: pair_line_def Let_def HANDLER_error)

lemma parse_line_error_kept:
  "error st \<noteq> 0 \<Longrightarrow> error (parse_line cfg h st line) = error st"
  by (simp add: parse_line_def Let_def continuation_line_error_kept section_line_error_kept
      pair_line_error_kept)

lemma recorded_init: "recorded (init_state u)"
  by (simp add: recorded_def init_state_def first_failure_def)

lemma recorded_set_error: "0 < lineno st \<Longrightarrow> recorded st \<Longrightarrow> recorded (set_error k st)"
  by (auto simp: recorded_def first_failure_def sorted_append split: list.splits)

lemma recorded_HANDLER: "0 < lineno st \<Longrightarrow> recorded st \<Longrightarrow> recorded (HANDLER h st k v)"
  by (auto simp: recorded_def first_failure_def sorted_append HANDLER_trace HANDLER_error
      split: list.splits)

lemma recorded_funpow: "0 < lineno st \<Longrightarrow> recorded st \<Longrightarrow> recorded ((set_error k ^^ n) st)"
  by (induction n) (simp_all add: recorded_set_error)

lemma recorded_lineno: "recorded st \<Longrightarrow> lineno st \<le> l \<Longrightarrow> recorded (st\<lparr> lineno := l \<rparr>)"
  by (auto simp: recorded_def)

lemma recorded_parse_line:
  assumes "0 < lineno st" and "recorded st"
  shows "recorded (parse_line cfg h st line)"
proof (cases rule: parse_line_cases [where cfg = cfg and st = st and line = line and h = h])
  case skip
  with assms show ?thesis by simp
next
  case (cont v)
  with assms show ?thesis by (simp add: recorded_HANDLER)
next
  case (header t)
  define st3 where "st3 = st\<lparr> section := ini_strncpy0 t MAX_SECTION,
      prev_name := (if allow_multiline cfg then [] else prev_name st),
      trace := trace st @ [Header (lineno st) t] \<rparr>"
  have "recorded st3" "0 < lineno st3"
    using assms by (simp_all add: recorded_def first_failure_def st3_def)
  then have "recorded (if call_handler_on_new_section cfg then HANDLER h st3 None None else st3)"
    by (simp add: recorded_HANDLER)
  moreover have "parse_line cfg h st line =
      (if call_handler_on_new_section cfg then HANDLER h st3 None None else st3)"
    unfolding header(2) st3_def Let_def ..
  ultimately show ?thesis by simp
next
  case nobracket
  with assms show ?thesis by (simp add: recorded_set_error)
next
  case (pair name v)
  define st1 where "st1 = st\<lparr> prev_name := (if allow_multiline cfg then ini_strncpy0 name MAX_NAME
                                         else prev_name st) \<rparr>"
  have "recorded st1" "0 < lineno st1"
    using assms by (simp_all add: recorded_def first_failure_def st1_def)
  then have "recorded (HANDLER h st1 (Some name) (Some v))"
    by (simp add: recorded_HANDLER)
  moreover have "parse_line cfg h st line = HANDLER h st1 (Some name) (Some v)"
    unfolding pair(2) st1_def ..
  ultimately show ?thesis by simp
next
  case (novalue name)
  with assms show ?thesis by (simp add: recorded_HANDLER)
next
  case nosep
  with assms show ?thesis by (simp add: recorded_set_error)
qed

lemma physical_lines_Nil [simp]: "physical_lines [] = []"
  by (simp add: physical_lines.simps)

lemma physical_lines_step: "s \<noteq> [] \<Longrightarrow> physical_lines s = first_line s # physical_lines (after_line s)"
  by (subst physical_lines.simps) simp

lemma parse_loop_recorded:
  assumes "NUL \<notin> set s" and "2 \<le> max_line cfg"
  shows "\<exists>st'. parse_loop cfg h st s = Some st' \<and>
           (0 \<le> lineno st \<longrightarrow> recorded st \<longrightarrow> recorded st' \<and> 0 \<le> lineno st') \<and>
           (\<not> stop_on_first_error cfg \<longrightarrow> lineno st' = lineno st + int (length (physical_lines s)))"
proof (rule parse_loop_rule [OF assms], goal_cases)
  case (1 st)
  show ?case by simp
next
  case (2 st s k st3)
  then show ?case
    by (auto intro!: recorded_parse_line recorded_funpow recorded_lineno)
next
  case (3 st s k st3 st')
  have "0 \<le> lineno st \<Longrightarrow> recorded st \<Longrightarrow> recorded st3 \<and> 0 \<le> lineno st3"
    unfolding 3(4) by (auto intro!: recorded_parse_line recorded_funpow recorded_lineno)
  moreover have "lineno st3 = lineno st + 1"
    unfolding 3(4) by simp
  ultimately show ?case
    using 3(1,6) by (auto simp: physical_lines_step)
qed

lemma take_strlen: "take (strlen s) s = cstr s"
  by (simp add: strlen_def cstr_def takeWhile_eq_take [symmetric])

lemma NUL_cstr: "NUL \<notin> set (cstr s)"
  by (auto simp: cstr_def dest: set_takeWhileD)

lemma ini_parse_string_eq: "ini_parse_string cfg string h u = parse_loop cfg h (init_state u) (cstr string)"
  by (simp add: ini_parse_string_def ini_parse_string_length_def ini_parse_stream_def take_strlen)

lemma discard_Cons:
  "discard st (c # cs) =
     (case ini_reader_string 16 (c # cs) of
        None \<Rightarrow> Some (st, c # cs)
      | Some (abyss, stream') \<Rightarrow>
          (let st' = set_error TooLong st
           in if strlen abyss = 0 then None
              else if last (cstr abyss) = NL then Some (st', stream')
              else discard st' stream'))"
  by (rule discard.simps)

lemmas eval_more = eval_defs discard_Nil discard_Cons accept_def HANDLER_error HANDLER_trace
  first_line_def after_line_def

lemma parse_loop_error_kept:
  assumes "NUL \<notin> set s" and "error st \<noteq> 0"
  shows "\<exists>st'. parse_loop cfg h st s = Some st' \<and> error st' = error st"
proof (cases "2 \<le> max_line cfg")
  case True
  have "\<exists>st'. parse_loop cfg h st s = Some st' \<and> (error st \<noteq> 0 \<longrightarrow> error st' = error st)"
  proof (rule parse_loop_rule [OF assms(1) True], goal_cases)
    case (1 st)
    show ?case by simp
  next
    case (2 st s k st3)
    then show ?case
      by (simp add: parse_line_error_kept funpow_set_error_error)
  next
    case (3 st s k st3 st')
    have "error st3 = error st" if "error st \<noteq> 0"
      unfolding 3(4) using that by (simp add: parse_line_error_kept funpow_set_error_error)
    with 3(6) show ?case by auto
  qed
  with assms(2) show ?thesis by simp
next
  case False
  then show ?thesis by (simp add: parse_loop_small)
qed

lemma recorded_zero: "recorded st \<Longrightarrow> error st = 0 \<longleftrightarrow> failures (trace st) = []"
  by (auto simp: recorded_def first_failure_def split: list.splits)

subsection \<open>The result of a parse\<close>

text \<open>
  C1. \<open>ini_parse_string\<close> is \<open>ini_parse_stream\<close> on the bytes of the string before
  its NUL. On every input it returns, and the value it returns (the field
  \<open>error\<close>) is the line of the first error site in the trace: 0 exactly when no line
  was malformed or too long and no handler call was rejected, and otherwise the number of
  the first such line. The error sites are in line order. With stop-on-first-error off
  (and a buffer of at least two bytes) the loop reads every physical line of the input:
  the final line count is their number. Once an error is recorded, the loop never
  replaces it: from a state whose error field is not 0, it ends with the same value.
\<close>

theorem first_error_returned:
  "ini_parse_string cfg string h u = ini_parse_stream cfg (cstr string) h u \<and>
   (\<exists>st. ini_parse_string cfg string h u = Some st \<and>
        error st = first_failure (trace st) \<and>
        (error st = 0 \<longleftrightarrow> failures (trace st) = []) \<and>
        sorted (failures (trace st)) \<and>
        (\<not> stop_on_first_error cfg \<and> 2 \<le> max_line cfg \<longrightarrow>
           lineno st = int (length (physical_lines (cstr string))))) \<and>
   (NUL \<notin> set s \<and> error st0 \<noteq> 0 \<longrightarrow>
      (\<exists>st1. parse_loop cfg h st0 s = Some st1 \<and> error st1 = error st0))"
proof (intro conjI impI)
  show "ini_parse_string cfg string h u = ini_parse_stream cfg (cstr string) h u"
    by (simp add: ini_parse_string_eq ini_parse_stream_def)
next
  show "\<exists>st. ini_parse_string cfg string h u = Some st \<and>
        error st = first_failure (trace st) \<and>
        (error st = 0 \<longleftrightarrow> failures (trace st) = []) \<and>
        sorted (failures (trace st)) \<and>
        (\<not> stop_on_first_error cfg \<and> 2 \<le> max_line cfg \<longrightarrow>
           lineno st = int (length (physical_lines (cstr string))))"
  proof (cases "2 \<le> max_line cfg")
    case True
    have l0: "lineno (init_state u) = 0"
      by (simp add: init_state_def)
    from parse_loop_recorded [OF NUL_cstr [of string] True, where h = h and st = "init_state u"]
    obtain st where st: "parse_loop cfg h (init_state u) (cstr string) = Some st"
      and r: "recorded st"
      and l: "\<not> stop_on_first_error cfg \<longrightarrow> lineno st = int (length (physical_lines (cstr string)))"
      by (auto simp: recorded_init l0)
    from r have "error st = first_failure (trace st)" "sorted (failures (trace st))"
      by (simp_all add: recorded_def)
    with st l recorded_zero [OF r] show ?thesis
      by (intro exI [of _ st]) (simp add: ini_parse_string_eq)
  next
    case False
    then have "parse_loop cfg h (init_state u) (cstr string) = Some (init_state u)"
      by (simp add: parse_loop_small)
    with False show ?thesis
      using recorded_init [of u] recorded_zero [OF recorded_init [of u]]
      by (simp add: ini_parse_string_eq recorded_def)
  qed
next
  assume "NUL \<notin> set s \<and> error st0 \<noteq> 0"
  then show "\<exists>st1. parse_loop cfg h st0 s = Some st1 \<and> error st1 = error st0"
    by (intro parse_loop_error_kept) simp_all
qed

theorem first_error_returned_witness:
  "\<not> stop_on_first_error default_config \<and> 2 \<le> max_line default_config \<and>
   (\<exists>st. ini_parse_string default_config (''a=1'' @ [NL] @ ''junk'' @ [NL] @ ''[x'' @ [NL]) accept () = Some st \<and>
        error st = 2 \<and> failures (trace st) = [2, 3] \<and>
        lineno st = int (length (physical_lines (cstr (''a=1'' @ [NL] @ ''junk'' @ [NL] @ ''[x'' @ [NL]))))) \<and>
   NUL \<notin> set (''[x'' @ [NL]) \<and> error (init_state ()\<lparr> lineno := 2, error := 2 \<rparr>) \<noteq> 0 \<and>
   (\<exists>st1. parse_loop default_config accept (init_state ()\<lparr> lineno := 2, error := 2 \<rparr>) (''[x'' @ [NL]) = Some st1
      \<and> error st1 = 2)"
proof -
  let ?S = "''a=1'' @ [NL] @ ''junk'' @ [NL] @ ''[x'' @ [NL]"
  have "map_option (\<lambda>st. failures (trace st)) (ini_parse_string default_config ?S accept ()) = Some [2, 3]"
    by (simp add: eval_more)
  moreover have "NUL \<notin> set (''[x'' @ [NL])" by (simp add: NUL_def NL_def)
  ultimately show ?thesis
    using first_error_returned [of default_config ?S accept "()" "''[x'' @ [NL]"
        "init_state ()\<lparr> lineno := 2, error := 2 \<rparr>"]
    by (auto simp: default_config_def first_failure_def)
qed

subsection \<open>Lines that do not fit the buffer\<close>

text \<open>
  C4. Let the first physical line of the remaining input, its line feed included, have
  at least \<open>max_line\<close> bytes (so in particular when it is longer than the maximum) and
  hold no NUL byte, with stop-on-first-error off. Then the loop parses the first
  \<open>max_line - 1\<close> bytes of the line, the discard loop reads the rest of the line in
  \<open>k > 0\<close> pieces, the error field becomes this line's number unless an error was
  recorded before, and the loop goes on with the input behind the line feed.
\<close>

theorem oversized_line:
  assumes "2 \<le> max_line cfg" and "max_line cfg \<le> length (first_line s)"
    and "NUL \<notin> set (first_line s)" and "\<not> stop_on_first_error cfg"
  shows "\<exists>k st2. 0 < k \<and> st2 = (set_error TooLong ^^ k) (st\<lparr> lineno := lineno st + 1 \<rparr>) \<and>
           error st2 = (if error st = 0 then lineno st + 1 else error st) \<and>
           parse_loop cfg h st s =
             parse_loop cfg h (parse_line cfg h st2 (take (max_line cfg - 1) s)) (after_line s)"
proof -
  have ne: "s \<noteq> []" using assms(1,2) by auto
  from parse_loop_step [OF ne assms(1,3), of h st]
  obtain k where k: "(k = 0) = (length (first_line s) < max_line cfg)"
    and eq: "parse_loop cfg h st s =
       (let st3 = parse_line cfg h ((set_error TooLong ^^ k) (st\<lparr> lineno := lineno st + 1 \<rparr>))
                    (take (max_line cfg - 1) (first_line s))
        in if stop_on_first_error cfg \<and> error st3 \<noteq> 0 then Some st3
           else parse_loop cfg h st3 (after_line s))"
    by (elim exE conjE)
  have k0: "0 < k" using k assms(2) by simp
  have tk: "take (max_line cfg - 1) (first_line s) = take (max_line cfg - 1) s"
    using assms(2) by (simp add: take_first_line)
  note eq' = eq [unfolded tk]
  show ?thesis
    using eq' k0 assms(4)
    by (intro exI [of _ k] exI [of _ "(set_error TooLong ^^ k) (st\<lparr> lineno := lineno st + 1 \<rparr>)"])
       (simp add: Let_def funpow_set_error_error)
qed

theorem oversized_line_witness:
  "2 \<le> max_line (default_config\<lparr> max_line := 4 \<rparr>) \<and>
   max_line (default_config\<lparr> max_line := 4 \<rparr>) \<le> length (first_line (''abcdefg'' @ [NL] @ ''x=1'' @ [NL])) \<and>
   NUL \<notin> set (first_line (''abcdefg'' @ [NL] @ ''x=1'' @ [NL])) \<and>
   \<not> stop_on_first_error (default_config\<lparr> max_line := 4 \<rparr>) \<and>
   (\<exists>k st2. 0 < k \<and> st2 = (set_error TooLong ^^ k) (init_state ()\<lparr> lineno := 1 \<rparr>) \<and>
      error st2 = 1 \<and>
      parse_loop (default_config\<lparr> max_line := 4 \<rparr>) accept (init_state ()) (''abcdefg'' @ [NL] @ ''x=1'' @ [NL]) =
        parse_loop (default_config\<lparr> max_line := 4 \<rparr>) accept
          (parse_line (default_config\<lparr> max_line := 4 \<rparr>) accept st2 ''abc'') (''x=1'' @ [NL]))"
proof -
  let ?C = "default_config\<lparr> max_line := 4 \<rparr>"
  let ?S = "''abcdefg'' @ [NL] @ ''x=1'' @ [NL]"
  have h1: "2 \<le> max_line ?C" by simp
  have h2: "max_line ?C \<le> length (first_line ?S)" by (simp add: NL_def)
  have h3: "NUL \<notin> set (first_line ?S)" by (simp add: NL_def NUL_def)
  have h4: "\<not> stop_on_first_error ?C" by (simp add: default_config_def)
  have e: "error (init_state ()) = 0" "lineno (init_state ()) = 0"
    by (simp_all add: init_state_def)
  have t: "take (max_line ?C - 1) ?S = ''abc''" "after_line ?S = ''x=1'' @ [NL]"
    by (simp_all add: NL_def)
  show ?thesis
    using oversized_line [OF h1 h2 h3 h4, where h = accept and st = "init_state ()"] h1 h2 h3 h4
    unfolding e t by simp
qed

subsection \<open>Section scoping\<close>

lemma snoc_decomp:
  "tr @ [e] = pre @ x # post \<longleftrightarrow>
     (pre = tr \<and> x = e \<and> post = []) \<or> (\<exists>post'. tr = pre @ x # post' \<and> post = post' @ [e])"
  by (cases post rule: rev_cases) auto

lemma section_of_snoc [simp]:
  "section_of (tr @ [Call n s k v]) = section_of tr"
  "section_of (tr @ [Failure n f]) = section_of tr"
  "section_of (tr @ [Header n t]) = ini_strncpy0 t MAX_SECTION"
  by (simp_all add: section_of_def)

lemma section_of_snoc2 [simp]:
  "section_of (tr @ [Call n s k v, Failure n' f]) = section_of tr"
  by (simp add: section_of_def)

lemma scoped_Nil [simp]: "scoped []"
  by (simp add: scoped_def)

lemma scoped_snoc [simp]:
  "scoped (tr @ [Call n s k v]) \<longleftrightarrow> scoped tr \<and> s = section_of tr"
  "scoped (tr @ [Failure n f]) \<longleftrightarrow> scoped tr"
  "scoped (tr @ [Header n t]) \<longleftrightarrow> scoped tr"
  by (auto simp: scoped_def snoc_decomp)

lemma in_scope_init: "in_scope (init_state u)"
  by (simp add: in_scope_def init_state_def section_of_def)

lemma in_scope_set_error: "in_scope st \<Longrightarrow> in_scope (set_error k st)"
  by (simp add: in_scope_def)

lemma in_scope_funpow: "in_scope st \<Longrightarrow> in_scope ((set_error k ^^ n) st)"
  by (induction n) (simp_all add: in_scope_set_error)

lemma scoped_Call_Failure:
  "scoped (tr @ [Call n s k v, Failure n' f]) \<longleftrightarrow> scoped tr \<and> s = section_of tr"
  using scoped_snoc(2) [of "tr @ [Call n s k v]" n' f] by simp

lemma in_scope_HANDLER: "in_scope st \<Longrightarrow> in_scope (HANDLER h st k v)"
  by (simp add: in_scope_def HANDLER_trace scoped_Call_Failure)

lemma in_scope_lineno: "in_scope (st\<lparr> lineno := l \<rparr>) = in_scope st"
  by (simp add: in_scope_def)

lemma in_scope_parse_line:
  assumes "in_scope st"
  shows "in_scope (parse_line cfg h st line)"
proof (cases rule: parse_line_cases [where cfg = cfg and st = st and line = line and h = h])
  case skip
  with assms show ?thesis by simp
next
  case (cont v)
  with assms show ?thesis by (simp add: in_scope_HANDLER)
next
  case (header t)
  define st3 where "st3 = st\<lparr> section := ini_strncpy0 t MAX_SECTION,
      prev_name := (if allow_multiline cfg then [] else prev_name st),
      trace := trace st @ [Header (lineno st) t] \<rparr>"
  have "in_scope st3"
    using assms by (simp add: in_scope_def st3_def)
  then have "in_scope (if call_handler_on_new_section cfg then HANDLER h st3 None None else st3)"
    by (simp add: in_scope_HANDLER)
  moreover have "parse_line cfg h st line =
      (if call_handler_on_new_section cfg then HANDLER h st3 None None else st3)"
    unfolding header(2) st3_def Let_def ..
  ultimately show ?thesis by simp
next
  case nobracket
  with assms show ?thesis by (simp add: in_scope_set_error)
next
  case (pair name v)
  define st1 where "st1 = st\<lparr> prev_name := (if allow_multiline cfg then ini_strncpy0 name MAX_NAME
                                         else prev_name st) \<rparr>"
  have "in_scope st1"
    using assms by (simp add: in_scope_def st1_def)
  then have "in_scope (HANDLER h st1 (Some name) (Some v))"
    by (rule in_scope_HANDLER)
  moreover have "parse_line cfg h st line = HANDLER h st1 (Some name) (Some v)"
    unfolding pair(2) st1_def ..
  ultimately show ?thesis by simp
next
  case (novalue name)
  with assms show ?thesis by (simp add: in_scope_HANDLER)
next
  case nosep
  with assms show ?thesis by (simp add: in_scope_set_error)
qed

lemma parse_loop_in_scope:
  assumes "NUL \<notin> set s" and "2 \<le> max_line cfg"
  shows "\<exists>st'. parse_loop cfg h st s = Some st' \<and> (in_scope st \<longrightarrow> in_scope st')"
proof (rule parse_loop_rule [OF assms], goal_cases)
  case (1 st)
  show ?case by simp
next
  case (2 st s k st3)
  then show ?case
    by (auto intro!: in_scope_parse_line in_scope_funpow simp: in_scope_lineno)
next
  case (3 st s k st3 st')
  have "in_scope st \<Longrightarrow> in_scope st3"
    unfolding 3(4) by (auto intro!: in_scope_parse_line in_scope_funpow simp: in_scope_lineno)
  with 3(6) show ?case by blast
qed

text \<open>
  C2. In the trace of every parse, each handler call carries as its section argument the
  section that the accepted headers before it leave in force: the empty string when no
  header was accepted before the call, and otherwise the text between the brackets of
  the last accepted header, as \<open>ini_strncpy0\<close> copies it; that is this text itself
  when it is shorter than \<open>MAX_SECTION\<close>. A header is accepted when the line takes the
  section branch and its closing bracket is found.
\<close>

theorem section_scoping:
  "\<exists>st. ini_parse_string cfg string h u = Some st \<and>
        (\<forall>pre n sec k v post. trace st = pre @ Call n sec k v # post \<longrightarrow>
           (headers pre = [] \<longrightarrow> sec = []) \<and>
           (headers pre \<noteq> [] \<longrightarrow> sec = ini_strncpy0 (last (headers pre)) MAX_SECTION) \<and>
           (headers pre \<noteq> [] \<and> length (last (headers pre)) < MAX_SECTION \<longrightarrow>
              sec = last (headers pre)))"
proof -
  have "\<exists>st. parse_loop cfg h (init_state u) (cstr string) = Some st \<and> in_scope st"
  proof (cases "2 \<le> max_line cfg")
    case True
    from parse_loop_in_scope [OF NUL_cstr [of string] True, where h = h and st = "init_state u"]
    show ?thesis by (simp add: in_scope_init)
  next
    case False
    then show ?thesis by (simp add: parse_loop_small in_scope_init)
  qed
  then obtain st where st: "parse_loop cfg h (init_state u) (cstr string) = Some st" "scoped (trace st)"
    by (auto simp: in_scope_def)
  have key: "sec = section_of pre" if "trace st = pre @ Call n sec k v # post" for pre n sec k v post
    using st(2) that unfolding scoped_def by blast
  have "(headers pre = [] \<longrightarrow> sec = []) \<and>
        (headers pre \<noteq> [] \<longrightarrow> sec = ini_strncpy0 (last (headers pre)) MAX_SECTION) \<and>
        (headers pre \<noteq> [] \<and> length (last (headers pre)) < MAX_SECTION \<longrightarrow> sec = last (headers pre))"
    if "trace st = pre @ Call n sec k v # post" for pre n sec k v post
    using key [OF that] by (auto simp: section_of_def ini_strncpy0_def)
  then have "\<forall>pre n sec k v post. trace st = pre @ Call n sec k v # post \<longrightarrow>
        (headers pre = [] \<longrightarrow> sec = []) \<and>
        (headers pre \<noteq> [] \<longrightarrow> sec = ini_strncpy0 (last (headers pre)) MAX_SECTION) \<and>
        (headers pre \<noteq> [] \<and> length (last (headers pre)) < MAX_SECTION \<longrightarrow> sec = last (headers pre))"
    by blast
  with st(1) show ?thesis
    unfolding ini_parse_string_eq by blast
qed

theorem section_scoping_witness:
  "\<exists>st. ini_parse_string default_config (''a=1'' @ [NL] @ ''[foo]'' @ [NL] @ ''b=2'' @ [NL]) accept () = Some st \<and>
     trace st = [Call 1 [] (Some ''a'') (Some ''1''), Header 2 ''foo'', Call 3 ''foo'' (Some ''b'') (Some ''2'')] \<and>
     headers [] = [] \<and>
     headers [Call 1 [] (Some ''a'') (Some ''1''), Header 2 ''foo''] \<noteq> [] \<and>
     length (last (headers [Call 1 [] (Some ''a'') (Some ''1''), Header 2 ''foo''])) < MAX_SECTION \<and>
     ''foo'' = last (headers [Call 1 [] (Some ''a'') (Some ''1''), Header 2 ''foo''])"
proof -
  from section_scoping [of default_config "''a=1'' @ [NL] @ ''[foo]'' @ [NL] @ ''b=2'' @ [NL]" accept "()"]
  obtain st where st: "ini_parse_string default_config (''a=1'' @ [NL] @ ''[foo]'' @ [NL] @ ''b=2'' @ [NL]) accept () = Some st"
    by blast
  have "map_option trace (ini_parse_string default_config (''a=1'' @ [NL] @ ''[foo]'' @ [NL] @ ''b=2'' @ [NL]) accept ())
      = Some [Call 1 [] (Some ''a'') (Some ''1''), Header 2 ''foo'', Call 3 ''foo'' (Some ''b'') (Some ''2'')]"
    by (simp add: eval_more)
  with st show ?thesis
    by (intro exI [of _ st]) (simp add: MAX_SECTION_def)
qed

subsection \<open>Counting events\<close>

lemma emitted_HANDLER: "emitted cfg (trace (HANDLER h st k v)) = Suc (emitted cfg (trace st))"
  by (simp add: emitted_def)

lemma parse_line_emitted:
  assumes "0 < lineno st" and "error (parse_line cfg h st line) = 0"
    and "\<not> is_skipped cfg (lineno st) line"
  shows "emitted cfg (trace (parse_line cfg h st line)) = Suc (emitted cfg (trace st))"
proof (cases rule: parse_line_cases [where cfg = cfg and st = st and line = line and h = h])
  case skip
  with assms show ?thesis by simp
next
  case (cont v)
  then show ?thesis by (simp add: emitted_HANDLER)
next
  case (header t)
  then show ?thesis by (simp add: Let_def emitted_def)
next
  case nobracket
  with assms show ?thesis by (simp split: if_splits)
next
  case (pair name v)
  then show ?thesis by (simp add: emitted_def)
next
  case (novalue name)
  then show ?thesis by (simp add: emitted_HANDLER)
next
  case nosep
  with assms show ?thesis by (simp split: if_splits)
qed

lemma parse_loop_emitted:
  assumes "NUL \<notin> set s" and "2 \<le> max_line cfg"
  shows "\<exists>st'. parse_loop cfg h st s = Some st' \<and>
           (error st \<noteq> 0 \<longrightarrow> error st' = error st) \<and>
           (0 \<le> lineno st \<longrightarrow> error st' = 0 \<longrightarrow>
            (\<forall>i<length (physical_lines s). \<not> is_skipped cfg (lineno st + 1 + int i) (physical_lines s ! i)) \<longrightarrow>
            emitted cfg (trace st') = emitted cfg (trace st) + length (physical_lines s))"
proof (rule parse_loop_rule [OF assms], goal_cases)
  case (1 st)
  show ?case by simp
next
  case (2 st s k st3)
  then show ?case
    by (simp add: parse_line_error_kept funpow_set_error_error)
next
  case (3 st s k st3 st')
  define st2 where "st2 = (set_error TooLong ^^ k) (st\<lparr> lineno := lineno st + 1 \<rparr>)"
  have st3: "st3 = parse_line cfg h st2 (take (max_line cfg - 1) (first_line s))"
    using 3(4) by (simp add: st2_def)
  have kept: "error st' = error st" if "error st \<noteq> 0"
  proof -
    have "error st2 = error st" using that by (simp add: st2_def funpow_set_error_error)
    then have "error st3 = error st" using that by (simp add: st3 parse_line_error_kept)
    with 3(6) that show ?thesis by simp
  qed
  have count: "emitted cfg (trace st') = emitted cfg (trace st) + length (physical_lines s)"
    if l: "0 \<le> lineno st" and e: "error st' = 0"
      and ns: "\<forall>i<length (physical_lines s). \<not> is_skipped cfg (lineno st + 1 + int i) (physical_lines s ! i)"
  proof -
    have pl: "physical_lines s = first_line s # physical_lines (after_line s)"
      using 3(1) by (rule physical_lines_step)
    have e3: "error st3 = 0" using 3(6) e by auto
    have e2: "error st2 = 0"
    proof (rule ccontr)
      assume "error st2 \<noteq> 0"
      then have "error st3 = error st2" unfolding st3 by (rule parse_line_error_kept)
      with e3 \<open>error st2 \<noteq> 0\<close> show False by simp
    qed
    have k0: "k = 0"
      using e2 l by (auto simp: st2_def funpow_set_error_error split: if_splits)
    then have fit: "length (first_line s) < max_line cfg" using 3(3) by simp
    then have tk: "take (max_line cfg - 1) (first_line s) = first_line s" by simp
    have st2': "st2 = st\<lparr> lineno := lineno st + 1 \<rparr>" using k0 by (simp add: st2_def)
    have "\<not> is_skipped cfg (lineno st2) (first_line s)"
      using ns pl by (auto simp: st2')
    moreover have "0 < lineno st2" using l by (simp add: st2')
    ultimately have "emitted cfg (trace st3) = Suc (emitted cfg (trace st2))"
      using e3 unfolding st3 tk by (intro parse_line_emitted) simp_all
    then have c3: "emitted cfg (trace st3) = Suc (emitted cfg (trace st))"
      by (simp add: st2')
    have l3: "lineno st3 = lineno st + 1" by (simp add: st3 st2')
    have "\<forall>i<length (physical_lines (after_line s)).
        \<not> is_skipped cfg (lineno st3 + 1 + int i) (physical_lines (after_line s) ! i)"
    proof (intro allI impI)
      fix i assume "i < length (physical_lines (after_line s))"
      then have "Suc i < length (physical_lines s)" by (simp add: pl)
      with ns have "\<not> is_skipped cfg (lineno st + 1 + int (Suc i)) (physical_lines s ! Suc i)"
        by blast
      then show "\<not> is_skipped cfg (lineno st3 + 1 + int i) (physical_lines (after_line s) ! i)"
        by (simp add: pl l3 add.commute add.left_commute)
    qed
    with 3(6) e l l3 have "emitted cfg (trace st') = emitted cfg (trace st3) + length (physical_lines (after_line s))"
      by simp
    with c3 pl show ?thesis by simp
  qed
  from kept count show ?case by blast
qed

text \<open>
  C3, amended. Let a parse return 0 on an input none of whose physical lines is blank or
  a comment. When the handler is called on each new section, the number of handler calls
  equals the number of physical lines. In the default configuration an accepted section
  header makes no handler call, and the number of handler calls plus the number of
  accepted headers equals the number of physical lines. Continuation lines count as one
  call each. As stated for every configuration the claim fails: by default the single
  line \<open>[s]\<close> is well-formed, not blank, not a comment, and makes no call.
\<close>

theorem events_count:
  assumes "2 \<le> max_line cfg"
    and "ini_parse_string cfg string h u = Some st" and "error st = 0"
    and "\<forall>i<length (physical_lines (cstr string)).
           \<not> is_skipped cfg (int i + 1) (physical_lines (cstr string) ! i)"
  shows "length (calls (trace st))
           + (if call_handler_on_new_section cfg then 0 else length (headers (trace st)))
         = length (physical_lines (cstr string))"
proof -
  from parse_loop_emitted [OF NUL_cstr [of string] assms(1), where h = h and st = "init_state u"]
  obtain st' where st': "parse_loop cfg h (init_state u) (cstr string) = Some st'"
    and c: "0 \<le> lineno (init_state u) \<longrightarrow> error st' = 0 \<longrightarrow>
            (\<forall>i<length (physical_lines (cstr string)).
               \<not> is_skipped cfg (lineno (init_state u) + 1 + int i) (physical_lines (cstr string) ! i)) \<longrightarrow>
            emitted cfg (trace st') = emitted cfg (trace (init_state u)) + length (physical_lines (cstr string))"
    by (elim exE conjE)
  have "st' = st" using st' assms(2) by (simp add: ini_parse_string_eq)
  moreover have "lineno (init_state u) = 0" "trace (init_state u) = []"
    by (simp_all add: init_state_def)
  ultimately show ?thesis
    using c assms(3,4) by (simp add: emitted_def add.commute)
qed

theorem events_count_witness:
  "2 \<le> max_line (default_config\<lparr> call_handler_on_new_section := True \<rparr>) \<and>
   (\<exists>st. ini_parse_string (default_config\<lparr> call_handler_on_new_section := True \<rparr>)
           (''[s]'' @ [NL] @ ''a=b'' @ [NL] @ '' c'' @ [NL]) accept () = Some st \<and>
     error st = 0 \<and>
     physical_lines (cstr (''[s]'' @ [NL] @ ''a=b'' @ [NL] @ '' c'' @ [NL])) = [''[s]'' @ [NL], ''a=b'' @ [NL], '' c'' @ [NL]] \<and>
     \<not> is_skipped (default_config\<lparr> call_handler_on_new_section := True \<rparr>) 1 (''[s]'' @ [NL]) \<and>
     \<not> is_skipped (default_config\<lparr> call_handler_on_new_section := True \<rparr>) 2 (''a=b'' @ [NL]) \<and>
     \<not> is_skipped (default_config\<lparr> call_handler_on_new_section := True \<rparr>) 3 ('' c'' @ [NL]) \<and>
     length (calls (trace st)) = 3)"
proof -
  let ?C = "default_config\<lparr> call_handler_on_new_section := True \<rparr>"
  let ?S = "''[s]'' @ [NL] @ ''a=b'' @ [NL] @ '' c'' @ [NL]"
  have h1: "2 \<le> max_line ?C" by (simp add: default_config_def)
  have ev: "map_option error (ini_parse_string ?C ?S accept ()) = Some 0"
    by (simp add: eval_more)
  then obtain st where st: "ini_parse_string ?C ?S accept () = Some st" and e: "error st = 0"
    by auto
  have pl: "physical_lines (cstr ?S) = [''[s]'' @ [NL], ''a=b'' @ [NL], '' c'' @ [NL]]"
    by (simp add: physical_lines.simps [of "_ # _"] eval_more)
  have sk: "\<not> is_skipped ?C 1 (''[s]'' @ [NL])" "\<not> is_skipped ?C 2 (''a=b'' @ [NL])"
      "\<not> is_skipped ?C 3 ('' c'' @ [NL])"
    by (simp_all add: is_skipped_def eval_more)
  have h4: "\<forall>i<length (physical_lines (cstr ?S)). \<not> is_skipped ?C (int i + 1) (physical_lines (cstr ?S) ! i)"
    unfolding pl using sk by (simp add: less_Suc_eq nth_Cons')
  have c: "call_handler_on_new_section ?C" by simp
  from events_count [OF h1 st e h4] have "length (calls (trace st)) = 3"
    unfolding pl by (simp add: c)
  with h1 st e pl sk show ?thesis by blast
qed

theorem events_count_counterexample:
  "map_option error (ini_parse_string default_config (''[s]'' @ [NL]) accept ()) = Some 0 \<and>
   physical_lines (''[s]'' @ [NL]) = [''[s]'' @ [NL]] \<and>
   \<not> is_skipped default_config 1 (''[s]'' @ [NL]) \<and>
   ini_events default_config (''[s]'' @ [NL]) accept () = Some []"
  by (simp add: physical_lines.simps [of "_ # _"] is_skipped_def eval_more)

subsection \<open>Scanning a line\<close>

lemma find_comment_Cons:
  "find_comment pre chars w (c # s) =
     (if \<not> hit chars c \<and> \<not> (w \<and> strchr pre c)
      then Suc (find_comment pre chars (isspace c) s) else 0)"
  by (simp add: hit_def split: option.splits)

lemma find_plain_Cons:
  "find_plain chars (c # s) = (if \<not> hit chars c then Suc (find_plain chars s) else 0)"
  by (simp add: hit_def split: option.splits)

lemma find_comment_le: "find_comment pre chars w s \<le> length s"
  by (induction s arbitrary: w) (simp_all add: find_comment_Cons del: find_comment.simps(2))

lemma find_plain_le: "find_plain chars s \<le> length s"
  by (induction s) (simp_all add: find_plain_Cons del: find_plain.simps(2))

lemma find_comment_stop:
  "find_comment pre chars w s < length s \<Longrightarrow>
   hit chars (s ! find_comment pre chars w s) \<or>
   ((if find_comment pre chars w s = 0 then w else isspace (s ! (find_comment pre chars w s - 1)))
     \<and> strchr pre (s ! find_comment pre chars w s))"
proof (induction s arbitrary: w)
  case Nil
  then show ?case by simp
next
  case (Cons c s)
  show ?case
  proof (cases "\<not> hit chars c \<and> \<not> (w \<and> strchr pre c)")
    case False
    then show ?thesis by (auto simp: find_comment_Cons simp del: find_comment.simps(2))
  next
    case True
    then have eq: "find_comment pre chars w (c # s) = Suc (find_comment pre chars (isspace c) s)"
      by (simp add: find_comment_Cons del: find_comment.simps(2))
    with Cons.prems have "find_comment pre chars (isspace c) s < length s" by simp
    from Cons.IH [OF this] show ?thesis
      unfolding eq by (auto simp: nth_Cons' split: if_splits)
  qed
qed

lemma find_comment_before:
  "i < find_comment pre chars w s \<Longrightarrow>
   \<not> hit chars (s ! i) \<and> \<not> ((if i = 0 then w else isspace (s ! (i - 1))) \<and> strchr pre (s ! i))"
proof (induction s arbitrary: w i)
  case Nil
  then show ?case by simp
next
  case (Cons c s)
  from Cons.prems have t: "\<not> hit chars c \<and> \<not> (w \<and> strchr pre c)"
    and eq: "find_comment pre chars w (c # s) = Suc (find_comment pre chars (isspace c) s)"
    by (auto simp: find_comment_Cons simp del: find_comment.simps(2) split: if_splits)
  show ?case
  proof (cases i)
    case 0
    with t show ?thesis by simp
  next
    case (Suc j)
    with Cons.prems eq have "j < find_comment pre chars (isspace c) s" by simp
    from Cons.IH [OF this] show ?thesis
      using Suc by (auto simp: nth_Cons' split: if_splits)
  qed
qed

lemma find_plain_stop:
  "find_plain chars s < length s \<Longrightarrow> hit chars (s ! find_plain chars s)"
  by (induction s) (auto simp: find_plain_Cons simp del: find_plain.simps(2) split: if_splits)

lemma find_plain_before: "i < find_plain chars s \<Longrightarrow> \<not> hit chars (s ! i)"
proof (induction s arbitrary: i)
  case Nil
  then show ?case by simp
next
  case (Cons c s)
  then show ?case
    by (cases i) (auto simp: find_plain_Cons simp del: find_plain.simps(2) split: if_splits)
qed

lemma find_comment_append:
  "find_comment pre chars w (t @ u) =
     (if find_comment pre chars w t < length t then find_comment pre chars w t
      else length t + find_comment pre chars (if t = [] then w else isspace (last t)) u)"
proof (induction t arbitrary: w)
  case Nil
  show ?case by simp
next
  case (Cons c t)
  show ?case
    using Cons.IH [of "isspace c"]
    by (auto simp: find_comment_Cons simp del: find_comment.simps(2))
qed

lemma find_plain_append:
  "find_plain chars (t @ u) =
     (if find_plain chars t < length t then find_plain chars t
      else length t + find_plain chars u)"
  by (induction t) (auto simp: find_plain_Cons simp del: find_plain.simps(2))

lemma rstrip_append: "ini_rstrip s @ rev (takeWhile isspace (rev s)) = s"
proof -
  have "rev (takeWhile isspace (rev s) @ dropWhile isspace (rev s)) = s"
    by simp
  then show ?thesis
    unfolding ini_rstrip_def rev_append .
qed

lemma rstrip_take: "ini_rstrip s = take (length (ini_rstrip s)) s"
proof -
  have "take (length (ini_rstrip s)) (ini_rstrip s @ rev (takeWhile isspace (rev s))) = ini_rstrip s"
    by simp
  then show ?thesis by (simp only: rstrip_append)
qed

lemma rstrip_Nil [simp]: "ini_rstrip [] = []"
  by (simp add: ini_rstrip_def)

lemma rstrip_snoc: "ini_rstrip (s @ [c]) = (if isspace c then ini_rstrip s else s @ [c])"
  by (simp add: ini_rstrip_def)

lemma rstrip_keep: "\<not> isspace c \<Longrightarrow> ini_rstrip (a @ c # r) = a @ c # ini_rstrip r"
proof (induction r rule: rev_induct)
  case Nil
  then show ?case using rstrip_snoc [of a c] by simp
next
  case (snoc x r)
  have "ini_rstrip (a @ c # r @ [x]) = ini_rstrip ((a @ c # r) @ [x])" by simp
  also have "\<dots> = (if isspace x then ini_rstrip (a @ c # r) else (a @ c # r) @ [x])"
    by (rule rstrip_snoc)
  also have "\<dots> = a @ c # ini_rstrip (r @ [x])"
    using snoc by (simp add: rstrip_snoc)
  finally show ?case .
qed

lemma lskip_ws: "\<forall>x\<in>set ws. isspace x \<Longrightarrow> \<not> isspace c \<Longrightarrow> ini_lskip (ws @ c # r) = c # r"
  by (simp add: ini_lskip_def dropWhile_append)

lemma lskip_none: "\<not> isspace c \<Longrightarrow> ini_lskip (c # r) = c # r"
  by (simp add: ini_lskip_def)

lemma deref_drop: "deref (drop e b) = (if e < length b then b ! e else NUL)"
  by (cases "drop e b") (auto simp: hd_drop_conv_nth [symmetric] dest: arg_cong [where f = hd])

lemma find_None_first:
  assumes "allow_inline_comments cfg" and "NUL \<notin> set s"
  shows "ini_find_chars_or_comment cfg s None \<le> length s \<and>
         (ini_find_chars_or_comment cfg s None < length s \<longrightarrow>
            comment_start cfg s (ini_find_chars_or_comment cfg s None)) \<and>
         (\<forall>i < ini_find_chars_or_comment cfg s None. \<not> comment_start cfg s i)"
proof -
  define n where "n = find_comment (inline_comment_prefixes cfg) None False s"
  have n: "ini_find_chars_or_comment cfg s None = n"
    using assms(1) by (simp add: ini_find_chars_or_comment_def n_def)
  have nn: "strchr (inline_comment_prefixes cfg) (s ! i) \<longleftrightarrow> s ! i \<in> set (inline_comment_prefixes cfg)"
    if "i < length s" for i
  proof -
    have "s ! i \<in> set s" using that by simp
    with assms(2) have "s ! i \<noteq> NUL" by metis
    then show ?thesis by (simp add: strchr_def)
  qed
  have le: "n \<le> length s" unfolding n_def by (rule find_comment_le)
  have stop: "comment_start cfg s n" if "n < length s"
    using find_comment_stop [of "inline_comment_prefixes cfg" None False s] that assms(1) nn [OF that]
    by (auto simp: n_def [symmetric] comment_start_def hit_def split: if_splits)
  have before: "\<not> comment_start cfg s i" if "i < n" for i
  proof -
    have "i < length s" using that le by simp
    with find_comment_before [of i "inline_comment_prefixes cfg" None False s] that nn [of i]
    show ?thesis by (auto simp: n_def [symmetric] comment_start_def)
  qed
  from le stop before show ?thesis unfolding n by blast
qed

lemma find_all_pass:
  assumes "\<forall>x\<in>set t. \<not> hit chars x \<and> \<not> strchr (inline_comment_prefixes cfg) x"
  shows "ini_find_chars_or_comment cfg t chars = length t"
proof -
  have "find_comment (inline_comment_prefixes cfg) chars w t = length t" for w
    using assms by (induction t arbitrary: w) (simp_all add: find_comment_Cons del: find_comment.simps(2))
  moreover have "find_plain chars t = length t"
    using assms by (induction t) (simp_all add: find_plain_Cons del: find_plain.simps(2))
  ultimately show ?thesis by (simp add: ini_find_chars_or_comment_def)
qed

subsection \<open>Inline comments\<close>

text \<open>
  C6. With inline comments on, the scan that strips a comment (\<open>chars\<close> NULL) stops at
  the first position that holds an inline comment prefix right after a whitespace
  character, and at the end of the string when there is none: a prefix character that
  does not follow whitespace starts no comment. In the default configuration
  \<open>key=val ; comment\<close> gives the value \<open>val\<close> and \<open>key=val;nospace\<close> gives
  \<open>val;nospace\<close>, whatever the handler.
\<close>

theorem inline_comment_rule:
  assumes "allow_inline_comments cfg" and "NUL \<notin> set s"
  shows "ini_find_chars_or_comment cfg s None \<le> length s \<and>
         (ini_find_chars_or_comment cfg s None < length s \<longrightarrow>
            comment_start cfg s (ini_find_chars_or_comment cfg s None)) \<and>
         (\<forall>i < ini_find_chars_or_comment cfg s None. \<not> comment_start cfg s i) \<and>
         ini_events default_config (''key=val ; comment'' @ [NL]) h u
           = Some [(1, [], Some ''key'', Some ''val'')] \<and>
         ini_events default_config (''key=val;nospace'' @ [NL]) h u
           = Some [(1, [], Some ''key'', Some ''val;nospace'')]"
proof -
  have "ini_events default_config (''key=val ; comment'' @ [NL]) h u
           = Some [(1, [], Some ''key'', Some ''val'')]"
    by (simp add: eval_defs)
  moreover have "ini_events default_config (''key=val;nospace'' @ [NL]) h u
           = Some [(1, [], Some ''key'', Some ''val;nospace'')]"
    by (simp add: eval_defs)
  ultimately show ?thesis
    using find_None_first [OF assms] by simp
qed

theorem inline_comment_rule_witness:
  "allow_inline_comments default_config \<and> NUL \<notin> set ''val ; comment'' \<and>
   ini_find_chars_or_comment default_config ''val ; comment'' None = 4 \<and>
   comment_start default_config ''val ; comment'' 4 \<and>
   ini_find_chars_or_comment default_config ''val;nospace'' None = length ''val;nospace'' \<and>
   ini_events default_config (''key=val ; comment'' @ [NL]) accept ()
      = Some [(1, [], Some ''key'', Some ''val'')]"
proof -
  have a: "allow_inline_comments default_config" by (simp add: default_config_def)
  have b: "NUL \<notin> set ''val ; comment''" by (simp add: NUL_def)
  have c: "ini_find_chars_or_comment default_config ''val ; comment'' None = 4"
    by (simp add: eval_defs)
  have d: "ini_find_chars_or_comment default_config ''val;nospace'' None = length ''val;nospace''"
    by (simp add: eval_defs)
  from inline_comment_rule [OF a b, of accept "()"] show ?thesis
    using a b d unfolding c by simp
qed

subsection \<open>Section headers without a closing bracket\<close>

text \<open>
  C7. Let a line begin with an opening bracket, and let every closing bracket behind it
  (if any) come after the start of an inline comment; the opening bracket is not
  configured as a comment prefix. Then the line changes the state in two fields only:
  the error field becomes the number of this line unless an error was recorded before,
  and the trace gains the error site. No handler call is made and the section stays.
\<close>

theorem unterminated_section:
  assumes "CHR ''['' \<notin> set (start_comment_prefixes cfg)"
    and "\<forall>i<length rest. rest ! i = CHR '']'' \<longrightarrow> (\<exists>j<i. comment_start cfg rest j)"
  shows "parse_line cfg h st (CHR ''['' # rest) =
           st\<lparr> error := (if error st = 0 then lineno st else error st),
               trace := trace st @ [Failure (lineno st) NoBracket] \<rparr> \<and>
         section (parse_line cfg h st (CHR ''['' # rest)) = section st \<and>
         calls (trace (parse_line cfg h st (CHR ''['' # rest))) = calls (trace st)"
proof -
  define line where "line = CHR ''['' # rest"
  define b where "b = ini_rstrip rest"
  have nsp: "\<not> isspace CHR ''[''" by (simp add: isspace_def)
  have ls: "line_start cfg (lineno st) line = line"
    by (simp add: line_start_def line_def BOM_def ini_lskip_def nsp)
  have start: "ini_rstrip line = CHR ''['' # b"
    using rstrip_keep [OF nsp, of "[]" rest] by (simp add: line_def b_def)
  have nc: "\<not> strchr (start_comment_prefixes cfg) CHR ''[''"
    using assms(1) by (simp add: strchr_def NUL_def)
  have pl: "parse_line cfg h st line = section_line cfg h st (CHR ''['' # b)"
    using nc by (simp add: parse_line_def ls start Let_def)
  define e where "e = ini_find_chars_or_comment cfg b (Some '']'')"
  have bt: "b = take (length b) rest" unfolding b_def by (rule rstrip_take)
  have bl: "length b \<le> length rest"
    using arg_cong [OF bt, of length] by simp
  have bn: "b ! i = rest ! i" if "i < length b" for i
    using that bt by (metis nth_take)
  have nb: "deref (drop e b) \<noteq> CHR '']''"
  proof
    assume br: "deref (drop e b) = CHR '']''"
    then have el: "e < length b" and be: "b ! e = CHR '']''"
      by (auto simp: deref_drop NUL_def split: if_splits)
    then have "rest ! e = CHR '']''" "e < length rest"
      using bn [OF el] bl by simp_all
    with assms(2) obtain j where j: "j < e" "comment_start cfg rest j" by blast
    then have ai: "allow_inline_comments cfg" and j0: "0 < j"
      and sp: "isspace (rest ! (j - 1))" and pr: "rest ! j \<in> set (inline_comment_prefixes cfg)"
      by (simp_all add: comment_start_def)
    have e': "e = find_comment (inline_comment_prefixes cfg) (Some '']'') False b"
      using ai by (simp add: e_def ini_find_chars_or_comment_def)
    have "b ! (j - 1) = rest ! (j - 1)" "b ! j = rest ! j"
      using j(1) el by (simp_all add: bn)
    with find_comment_before [of j "inline_comment_prefixes cfg" "Some '']''" False b] j(1) j0 sp pr
    show False
      by (simp add: e' [symmetric] strchr_def)
  qed
  have "section_line cfg h st (CHR ''['' # b) = set_error NoBracket st"
    using nb by (simp add: section_line_def Let_def e_def)
  with pl have "parse_line cfg h st line = set_error NoBracket st" by simp
  then show ?thesis
    unfolding line_def by (simp add: set_error_def)
qed

theorem unterminated_section_witness:
  "CHR ''['' \<notin> set (start_comment_prefixes default_config) \<and>
   parse_line default_config accept (init_state ()\<lparr> lineno := 3, section := ''old'' \<rparr>)
       (CHR ''['' # ''section'' @ [NL]) =
     init_state ()\<lparr> lineno := 3, section := ''old'', error := 3, trace := [Failure 3 NoBracket] \<rparr>"
proof -
  have a: "CHR ''['' \<notin> set (start_comment_prefixes default_config)"
    by (simp add: default_config_def)
  have c: "\<forall>i<length (''section'' @ [NL]). (''section'' @ [NL]) ! i = CHR '']''
      \<longrightarrow> (\<exists>j<i. comment_start default_config (''section'' @ [NL]) j)"
    by (simp add: NL_def less_Suc_eq nth_Cons' all_conj_distrib)
  from unterminated_section [OF a c, of accept "init_state ()\<lparr> lineno := 3, section := ''old'' \<rparr>"]
  show ?thesis
    using a by (simp add: init_state_def)
qed

subsection \<open>Names longer than their buffers\<close>

lemma find_passes:
  assumes "ini_find_chars_or_comment cfg t chars = length t" and "hit chars c"
  shows "ini_find_chars_or_comment cfg (t @ c # r) chars = length t"
proof (cases "allow_inline_comments cfg")
  case True
  with assms(1) have "find_comment (inline_comment_prefixes cfg) chars False t = length t"
    by (simp add: ini_find_chars_or_comment_def)
  then have "find_comment (inline_comment_prefixes cfg) chars False (t @ c # r) = length t"
    using assms(2) by (simp add: find_comment_append find_comment_Cons del: find_comment.simps(2))
  with True show ?thesis by (simp add: ini_find_chars_or_comment_def)
next
  case False
  with assms(1) have "find_plain chars t = length t"
    by (simp add: ini_find_chars_or_comment_def)
  then have "find_plain chars (t @ c # r) = length t"
    using assms(2) by (simp add: find_plain_append find_plain_Cons del: find_plain.simps(2))
  with False show ?thesis by (simp add: ini_find_chars_or_comment_def)
qed

lemma section_line_shape:
  assumes "CHR ''['' \<notin> set (start_comment_prefixes cfg)"
    and "ini_find_chars_or_comment cfg t (Some '']'') = length t"
  shows "parse_line cfg h st (CHR ''['' # t @ CHR '']'' # rest) =
     (let st3 = st\<lparr> section := ini_strncpy0 t MAX_SECTION,
                      prev_name := (if allow_multiline cfg then [] else prev_name st),
                      trace := trace st @ [Header (lineno st) t] \<rparr>
      in if call_handler_on_new_section cfg then HANDLER h st3 None None else st3)"
proof -
  define line where "line = CHR ''['' # t @ CHR '']'' # rest"
  define b where "b = t @ CHR '']'' # ini_rstrip rest"
  have nsp: "\<not> isspace CHR ''[''" "\<not> isspace CHR '']''" by (simp_all add: isspace_def)
  have ls: "line_start cfg (lineno st) line = line"
    by (simp add: line_start_def line_def BOM_def ini_lskip_def nsp)
  have start: "ini_rstrip line = CHR ''['' # b"
    using rstrip_keep [OF nsp(2), of "CHR ''['' # t" rest] by (simp add: line_def b_def)
  have nc: "\<not> strchr (start_comment_prefixes cfg) CHR ''[''"
    using assms(1) by (simp add: strchr_def NUL_def)
  have pl: "parse_line cfg h st line = section_line cfg h st (CHR ''['' # b)"
    using nc by (simp add: parse_line_def ls start Let_def)
  have e: "ini_find_chars_or_comment cfg b (Some '']'') = length t"
    unfolding b_def by (rule find_passes [OF assms(2)]) (simp add: hit_def strchr_def)
  have "section_line cfg h st (CHR ''['' # b) =
     (let st3 = st\<lparr> section := ini_strncpy0 t MAX_SECTION,
                      prev_name := (if allow_multiline cfg then [] else prev_name st),
                      trace := trace st @ [Header (lineno st) t] \<rparr>
      in if call_handler_on_new_section cfg then HANDLER h st3 None None else st3)"
    by (simp add: section_line_def Let_def e) (simp add: b_def)
  with pl show ?thesis by (simp add: line_def)
qed

lemma BOM_hd: "take 3 s = BOM \<Longrightarrow> s \<noteq> [] \<and> hd s = CHR 0xEF"
  by (cases s) (auto simp: BOM_def)

lemma pair_line_shape:
  assumes ws: "\<forall>x\<in>set ws. isspace x"
    and nm: "ini_find_chars_or_comment cfg name (Some ''=:'') = length name"
    and c: "c = CHR ''='' \<or> c = CHR '':''"
    and hd: "\<not> isspace (hd (name @ [c]))"
        "\<not> strchr (start_comment_prefixes cfg) (hd (name @ [c]))"
        "hd (name @ [c]) \<noteq> CHR ''[''"
    and bom: "\<not> (allow_bom cfg \<and> lineno st = 1 \<and> take 3 (ws @ name @ c # rhs) = BOM)"
    and cont: "\<not> (allow_multiline cfg \<and> prev_name st \<noteq> [] \<and> ws \<noteq> [])"
  shows "parse_line cfg h st (ws @ name @ c # rhs) =
     HANDLER h (if allow_multiline cfg
                then st\<lparr> prev_name := ini_strncpy0 (ini_rstrip name) MAX_NAME \<rparr> else st)
       (Some (ini_rstrip name)) (Some (strip_value cfg (ini_rstrip rhs)))"
proof -
  define line where "line = ws @ name @ c # rhs"
  define start where "start = name @ c # ini_rstrip rhs"
  obtain x y where xy: "name @ c # rhs = x # y" and x: "x = hd (name @ [c])"
    by (cases name) auto
  have nsc: "\<not> isspace c" using c by (auto simp: isspace_def)
  have "ini_lskip line = name @ c # rhs"
    unfolding line_def xy using ws hd(1) by (simp add: lskip_ws x)
  then have ls: "line_start cfg (lineno st) line = name @ c # rhs"
    using bom by (auto simp: line_start_def line_def)
  have st: "ini_rstrip (name @ c # rhs) = start"
    unfolding start_def by (rule rstrip_keep [OF nsc])
  have ds: "deref start = hd (name @ [c])" "start \<noteq> []"
    by (cases name; simp add: start_def)+
  have len: "length (name @ c # rhs) < length line \<longleftrightarrow> ws \<noteq> []"
    by (simp add: line_def)
  have pl: "parse_line cfg h st line = pair_line cfg h st start"
    using hd(2,3) cont len by (auto simp: parse_line_def ls st Let_def ds)
  have e: "ini_find_chars_or_comment cfg start (Some ''=:'') = length name"
    unfolding start_def by (rule find_passes [OF nm]) (use c in \<open>auto simp: hit_def strchr_def\<close>)
  have "pair_line cfg h st start =
     HANDLER h (if allow_multiline cfg
                then st\<lparr> prev_name := ini_strncpy0 (ini_rstrip name) MAX_NAME \<rparr> else st)
       (Some (ini_rstrip name)) (Some (strip_value cfg (ini_rstrip rhs)))"
    using c by (simp add: pair_line_def Let_def e) (auto simp: start_def)
  with pl show ?thesis by (simp add: line_def)
qed

lemma bounded_init: "bounded (init_state u)"
  by (simp add: bounded_def init_state_def MAX_SECTION_def MAX_NAME_def)

lemma bounded_set_error: "bounded st \<Longrightarrow> bounded (set_error k st)"
  by (simp add: bounded_def)

lemma bounded_funpow: "bounded st \<Longrightarrow> bounded ((set_error k ^^ n) st)"
  by (induction n) (simp_all add: bounded_set_error)

lemma bounded_HANDLER: "bounded st \<Longrightarrow> bounded (HANDLER h st k v)"
  by (simp add: bounded_def)

lemma bounded_lineno: "bounded (st\<lparr> lineno := l \<rparr>) = bounded st"
  by (simp add: bounded_def)

lemma length_strncpy0: "0 < n \<Longrightarrow> length (ini_strncpy0 s n) < n"
  by (auto simp: ini_strncpy0_def)

lemma bounded_parse_line:
  assumes "bounded st"
  shows "bounded (parse_line cfg h st line)"
proof (cases rule: parse_line_cases [where cfg = cfg and st = st and line = line and h = h])
  case skip
  with assms show ?thesis by simp
next
  case (cont v)
  with assms show ?thesis by (simp add: bounded_HANDLER)
next
  case (header t)
  define st3 where "st3 = st\<lparr> section := ini_strncpy0 t MAX_SECTION,
      prev_name := (if allow_multiline cfg then [] else prev_name st),
      trace := trace st @ [Header (lineno st) t] \<rparr>"
  have "bounded st3"
    using assms length_strncpy0 [of MAX_SECTION t]
    by (auto simp: bounded_def st3_def MAX_SECTION_def MAX_NAME_def)
  then have "bounded (if call_handler_on_new_section cfg then HANDLER h st3 None None else st3)"
    by (simp add: bounded_HANDLER)
  moreover have "parse_line cfg h st line =
      (if call_handler_on_new_section cfg then HANDLER h st3 None None else st3)"
    unfolding header(2) st3_def Let_def ..
  ultimately show ?thesis by simp
next
  case nobracket
  with assms show ?thesis by (simp add: bounded_set_error)
next
  case (pair name v)
  define st1 where "st1 = st\<lparr> prev_name := (if allow_multiline cfg then ini_strncpy0 name MAX_NAME
                                         else prev_name st) \<rparr>"
  have "bounded st1"
    using assms length_strncpy0 [of MAX_NAME name]
    by (auto simp: bounded_def st1_def MAX_NAME_def)
  then have "bounded (HANDLER h st1 (Some name) (Some v))"
    by (rule bounded_HANDLER)
  moreover have "parse_line cfg h st line = HANDLER h st1 (Some name) (Some v)"
    unfolding pair(2) st1_def ..
  ultimately show ?thesis by simp
next
  case (novalue name)
  with assms show ?thesis by (simp add: bounded_HANDLER)
next
  case nosep
  with assms show ?thesis by (simp add: bounded_set_error)
qed

lemma parse_loop_bounded:
  assumes "NUL \<notin> set s" and "2 \<le> max_line cfg"
  shows "\<exists>st'. parse_loop cfg h st s = Some st' \<and> (bounded st \<longrightarrow> bounded st')"
proof (rule parse_loop_rule [OF assms], goal_cases)
  case (1 st)
  show ?case by simp
next
  case (2 st s k st3)
  then show ?case
    by (auto intro!: bounded_parse_line bounded_funpow simp: bounded_lineno)
next
  case (3 st s k st3 st')
  have "bounded st \<Longrightarrow> bounded st3"
    unfolding 3(4) by (auto intro!: bounded_parse_line bounded_funpow simp: bounded_lineno)
  with 3(6) show ?case by blast
qed

lemma ini_parse_string_bounded:
  "\<exists>st'. ini_parse_string cfg string h u = Some st' \<and> bounded st'"
proof (cases "2 \<le> max_line cfg")
  case True
  from parse_loop_bounded [OF NUL_cstr [of string] True, where h = h and st = "init_state u"]
  show ?thesis by (simp add: bounded_init ini_parse_string_eq)
next
  case False
  then show ?thesis by (simp add: parse_loop_small bounded_init ini_parse_string_eq)
qed

text \<open>
  C8. A header line \<open>[t]\<close> whose text \<open>t\<close> the scan for the closing bracket passes
  over sets the section to the first 49 bytes of \<open>t\<close>, however long \<open>t\<close> is, and
  records no error, unless the handler is called on the new section and rejects it. A
  line \<open>name = value\<close> (not taken as a continuation) makes the remembered name the
  first 49 bytes of the trimmed name, passes the whole trimmed name to the handler, and
  records no error unless the handler rejects the call. In every parse the section, the
  remembered name and the section argument of every call are shorter than 50 bytes.
\<close>

theorem names_truncated:
  "(CHR ''['' \<notin> set (start_comment_prefixes cfg) \<and>
    ini_find_chars_or_comment cfg t (Some '']'') = length t \<longrightarrow>
      section (parse_line cfg h st (CHR ''['' # t @ CHR '']'' # rest)) = take 49 t \<and>
      ((call_handler_on_new_section cfg \<and> fst (h (user st) (take 49 t) None None) = 0) \<or>
       (error (parse_line cfg h st (CHR ''['' # t @ CHR '']'' # rest)) = error st \<and>
        failures (trace (parse_line cfg h st (CHR ''['' # t @ CHR '']'' # rest))) = failures (trace st))))
   \<and>
   ((\<forall>x\<in>set ws. isspace x) \<and> allow_multiline cfg \<and>
    ini_find_chars_or_comment cfg name (Some ''=:'') = length name \<and>
    (c = CHR ''='' \<or> c = CHR '':'') \<and>
    \<not> isspace (hd (name @ [c])) \<and> \<not> strchr (start_comment_prefixes cfg) (hd (name @ [c])) \<and>
    hd (name @ [c]) \<noteq> CHR ''['' \<and>
    \<not> (allow_bom cfg \<and> lineno st = 1 \<and> take 3 (ws @ name @ c # rhs) = BOM) \<and>
    \<not> (prev_name st \<noteq> [] \<and> ws \<noteq> []) \<longrightarrow>
      prev_name (parse_line cfg h st (ws @ name @ c # rhs)) = take 49 (ini_rstrip name) \<and>
      calls (trace (parse_line cfg h st (ws @ name @ c # rhs))) =
        calls (trace st) @
          [(lineno st, section st, Some (ini_rstrip name), Some (strip_value cfg (ini_rstrip rhs)))] \<and>
      (fst (h (user st) (section st) (Some (ini_rstrip name))
             (Some (strip_value cfg (ini_rstrip rhs)))) = 0 \<or>
       (error (parse_line cfg h st (ws @ name @ c # rhs)) = error st \<and>
        failures (trace (parse_line cfg h st (ws @ name @ c # rhs))) = failures (trace st))))
   \<and>
   (\<exists>st'. ini_parse_string cfg string h u = Some st' \<and>
      length (section st') < MAX_SECTION \<and> length (prev_name st') < MAX_NAME \<and>
      (\<forall>e \<in> set (calls (trace st')). length (fst (snd e)) < MAX_SECTION))"
proof (intro conjI impI)
  assume a: "CHR ''['' \<notin> set (start_comment_prefixes cfg) \<and>
    ini_find_chars_or_comment cfg t (Some '']'') = length t"
  note eq = section_line_shape [OF conjunct1 [OF a] conjunct2 [OF a], of h st rest]
  show "section (parse_line cfg h st (CHR ''['' # t @ CHR '']'' # rest)) = take 49 t"
    unfolding eq by (simp add: Let_def ini_strncpy0_def MAX_SECTION_def)
  show "(call_handler_on_new_section cfg \<and> fst (h (user st) (take 49 t) None None) = 0) \<or>
       (error (parse_line cfg h st (CHR ''['' # t @ CHR '']'' # rest)) = error st \<and>
        failures (trace (parse_line cfg h st (CHR ''['' # t @ CHR '']'' # rest))) = failures (trace st))"
    unfolding eq
    by (simp add: Let_def ini_strncpy0_def MAX_SECTION_def HANDLER_error HANDLER_failures)
next
  assume a: "(\<forall>x\<in>set ws. isspace x) \<and> allow_multiline cfg \<and>
    ini_find_chars_or_comment cfg name (Some ''=:'') = length name \<and>
    (c = CHR ''='' \<or> c = CHR '':'') \<and>
    \<not> isspace (hd (name @ [c])) \<and> \<not> strchr (start_comment_prefixes cfg) (hd (name @ [c])) \<and>
    hd (name @ [c]) \<noteq> CHR ''['' \<and>
    \<not> (allow_bom cfg \<and> lineno st = 1 \<and> take 3 (ws @ name @ c # rhs) = BOM) \<and>
    \<not> (prev_name st \<noteq> [] \<and> ws \<noteq> [])"
  then have eq: "parse_line cfg h st (ws @ name @ c # rhs) =
     HANDLER h (if allow_multiline cfg
                then st\<lparr> prev_name := ini_strncpy0 (ini_rstrip name) MAX_NAME \<rparr> else st)
       (Some (ini_rstrip name)) (Some (strip_value cfg (ini_rstrip rhs)))"
    by (intro pair_line_shape) simp_all
  from a have m: "allow_multiline cfg" by simp
  show "prev_name (parse_line cfg h st (ws @ name @ c # rhs)) = take 49 (ini_rstrip name)"
    unfolding eq by (simp add: m ini_strncpy0_def MAX_NAME_def)
  show "calls (trace (parse_line cfg h st (ws @ name @ c # rhs))) =
        calls (trace st) @
          [(lineno st, section st, Some (ini_rstrip name), Some (strip_value cfg (ini_rstrip rhs)))]"
    unfolding eq by (simp add: m)
  show "fst (h (user st) (section st) (Some (ini_rstrip name))
             (Some (strip_value cfg (ini_rstrip rhs)))) = 0 \<or>
       (error (parse_line cfg h st (ws @ name @ c # rhs)) = error st \<and>
        failures (trace (parse_line cfg h st (ws @ name @ c # rhs))) = failures (trace st))"
    unfolding eq by (simp add: m HANDLER_error HANDLER_failures)
next
  from ini_parse_string_bounded [of cfg string h u]
  show "\<exists>st'. ini_parse_string cfg string h u = Some st' \<and>
      length (section st') < MAX_SECTION \<and> length (prev_name st') < MAX_NAME \<and>
      (\<forall>e \<in> set (calls (trace st')). length (fst (snd e)) < MAX_SECTION)"
    by (simp add: bounded_def)
qed

theorem names_truncated_witness:
  "CHR ''['' \<notin> set (start_comment_prefixes default_config) \<and>
   ini_find_chars_or_comment default_config (replicate 60 CHR ''x'') (Some '']'') = length (replicate 60 CHR ''x'') \<and>
   section (parse_line default_config accept (init_state ()) (CHR ''['' # replicate 60 CHR ''x'' @ CHR '']'' # [NL]))
     = replicate 49 CHR ''x'' \<and>
   error (parse_line default_config accept (init_state ()) (CHR ''['' # replicate 60 CHR ''x'' @ CHR '']'' # [NL])) = 0 \<and>
   allow_multiline default_config \<and>
   ini_find_chars_or_comment default_config (replicate 60 CHR ''k'') (Some ''=:'') = length (replicate 60 CHR ''k'') \<and>
   prev_name (parse_line default_config accept (init_state ()) (replicate 60 CHR ''k'' @ CHR ''='' # ''v'' @ [NL]))
     = replicate 49 CHR ''k'' \<and>
   calls (trace (parse_line default_config accept (init_state ()) (replicate 60 CHR ''k'' @ CHR ''='' # ''v'' @ [NL])))
     = [(0, [], Some (replicate 60 CHR ''k''), Some ''v'')] \<and>
   error (parse_line default_config accept (init_state ()) (replicate 60 CHR ''k'' @ CHR ''='' # ''v'' @ [NL])) = 0"
proof -
  let ?C = default_config
  let ?st = "init_state () :: unit ini_state"
  have i: "error ?st = 0" "lineno ?st = 0" "section ?st = []" "prev_name ?st = []" "trace ?st = []"
    by (simp_all add: init_state_def)
  have a1: "CHR ''['' \<notin> set (start_comment_prefixes ?C)" by (simp add: default_config_def)
  have a2: "ini_find_chars_or_comment ?C (replicate 60 CHR ''x'') (Some '']'') = length (replicate 60 CHR ''x'')"
    by (rule find_all_pass) (simp add: hit_def strchr_def default_config_def NUL_def)
  have b1: "allow_multiline ?C" by (simp add: default_config_def)
  have b2: "ini_find_chars_or_comment ?C (replicate 60 CHR ''k'') (Some ''=:'') = length (replicate 60 CHR ''k'')"
    by (rule find_all_pass) (simp add: hit_def strchr_def default_config_def NUL_def)
  have b3: "\<not> isspace (hd (replicate 60 CHR ''k'' @ [CHR ''='']))"
    "\<not> strchr (start_comment_prefixes ?C) (hd (replicate 60 CHR ''k'' @ [CHR ''='']))"
    "hd (replicate 60 CHR ''k'' @ [CHR ''='']) \<noteq> CHR ''[''"
    by (simp_all add: isspace_def strchr_def default_config_def NUL_def)
  have r: "ini_rstrip (replicate 60 CHR ''k'') = replicate 60 CHR ''k''"
    by (simp add: ini_rstrip_def isspace_def)
  have v: "strip_value ?C (ini_rstrip (''v'' @ [NL])) = ''v''"
    by (simp add: eval_defs)
  have acc: "fst (accept x s k v) = 1" for x s k v
    by (simp add: accept_def)
  from names_truncated [where cfg = ?C and t = "replicate 60 CHR ''x''" and h = accept and st = ?st
      and rest = "[NL]" and ws = "[]" and name = "replicate 60 CHR ''k''" and c = "CHR ''=''"
      and rhs = "''v'' @ [NL]" and string = "[]" and u = "()"]
  show ?thesis
    using a1 a2 b1 b2 b3 v by (simp add: i r acc)
qed

subsection \<open>Lines with an empty key\<close>

text \<open>
  C10, amended. Let the first character of a line after its leading whitespace be
  \<open>=\<close> or \<open>:\<close>, and let the line not be taken as a continuation: continuation mode
  is off, or no name is remembered, or the line has no leading whitespace. Then the
  parser calls the handler once with the empty string as the key and, as the value, the
  right-hand side without its inline comment (when inline comments are on) and trimmed;
  it records no error for the line unless the handler rejects the call. As stated the
  claim fails: in the default configuration the indented line \<open> =c\<close> after
  \<open>a=b\<close> is a continuation, passed to the handler with key \<open>a\<close> and value
  \<open>=c\<close>; and the line \<open>=x\<close> records an error on line 1 when the handler rejects
  the call.
\<close>

theorem empty_key:
  assumes "\<forall>x\<in>set ws. isspace x" and "c = CHR ''='' \<or> c = CHR '':''"
    and "c \<notin> set (start_comment_prefixes cfg)"
    and "\<not> (allow_multiline cfg \<and> prev_name st \<noteq> [] \<and> ws \<noteq> [])"
  shows "calls (trace (parse_line cfg h st (ws @ c # rhs))) =
           calls (trace st) @ [(lineno st, section st, Some [], Some (strip_value cfg (ini_rstrip rhs)))] \<and>
         (fst (h (user st) (section st) (Some []) (Some (strip_value cfg (ini_rstrip rhs)))) \<noteq> 0 \<longrightarrow>
            error (parse_line cfg h st (ws @ c # rhs)) = error st \<and>
            failures (trace (parse_line cfg h st (ws @ c # rhs))) = failures (trace st))"
proof -
  have nsc: "\<not> isspace c" "c \<noteq> CHR ''[''" "c \<noteq> NUL" "c \<noteq> CHR 0xEF"
    using assms(2) by (auto simp: isspace_def NUL_def)
  have nb: "take 3 (ws @ c # rhs) \<noteq> BOM"
  proof
    assume b: "take 3 (ws @ c # rhs) = BOM"
    from BOM_hd [OF b] have h: "hd (ws @ c # rhs) = CHR 0xEF" by (rule conjunct2)
    show False
    proof (cases ws)
      case Nil
      with h nsc(4) show False by simp
    next
      case (Cons x xs)
      with h assms(1) show False by (auto simp: isspace_def)
    qed
  qed
  have "parse_line cfg h st (ws @ [] @ c # rhs) =
     HANDLER h (if allow_multiline cfg
                then st\<lparr> prev_name := ini_strncpy0 (ini_rstrip []) MAX_NAME \<rparr> else st)
       (Some (ini_rstrip [])) (Some (strip_value cfg (ini_rstrip rhs)))"
    using assms nsc nb
    by (intro pair_line_shape) (simp_all add: strchr_def ini_find_chars_or_comment_def)
  then have eq: "parse_line cfg h st (ws @ c # rhs) =
     HANDLER h (if allow_multiline cfg then st\<lparr> prev_name := [] \<rparr> else st)
       (Some []) (Some (strip_value cfg (ini_rstrip rhs)))"
    by (simp add: ini_strncpy0_def)
  show ?thesis
    unfolding eq by (simp add: HANDLER_error HANDLER_failures)
qed

theorem empty_key_witness:
  "isspace CHR '' '' \<and> CHR ''='' \<notin> set (start_comment_prefixes default_config) \<and>
   calls (trace (parse_line default_config accept (init_state ()\<lparr> lineno := 1 \<rparr>)
                  ('' '' @ CHR ''='' # '' x ; note'' @ [NL])))
     = [(1, [], Some [], Some ''x'')] \<and>
   error (parse_line default_config accept (init_state ()\<lparr> lineno := 1 \<rparr>)
            ('' '' @ CHR ''='' # '' x ; note'' @ [NL])) = 0"
proof -
  let ?st = "init_state ()\<lparr> lineno := 1 \<rparr> :: unit ini_state"
  have i: "error ?st = 0" "lineno ?st = 1" "section ?st = []" "prev_name ?st = []" "trace ?st = []"
    by (simp_all add: init_state_def)
  have a: "\<forall>x\<in>set '' ''. isspace x" by (simp add: isspace_def)
  have b: "CHR ''='' \<notin> set (start_comment_prefixes default_config)"
    by (simp add: default_config_def)
  have v: "strip_value default_config (ini_rstrip ('' x ; note'' @ [NL])) = ''x''"
    by (simp add: eval_defs)
  from empty_key [OF a _ b, where st = ?st and h = accept and rhs = "'' x ; note'' @ [NL]"]
  show ?thesis
    using a b v by (simp add: i accept_def)
qed

theorem empty_key_counterexample:
  "ini_events default_config (''a=b'' @ [NL] @ '' =c'' @ [NL]) accept ()
     = Some [(1, [], Some ''a'', Some ''b''), (2, [], Some ''a'', Some ''=c'')] \<and>
   map_option error (ini_parse_string default_config (''=x'' @ [NL]) reject ()) = Some 1"
  by (simp add: eval_defs reject_def HANDLER_error)

subsection \<open>Blank lines and comment lines\<close>

lemma first_line_append:
  "NL \<notin> set a \<Longrightarrow> first_line (a @ NL # r) = a @ [NL] \<and> after_line (a @ NL # r) = r"
  by (induction a) auto

lemma whole_line_first:
  assumes "whole_line cfg l"
  shows "first_line (l @ rest) = l" and "after_line (l @ rest) = rest"
proof -
  from assms have ne: "l \<noteq> []" and la: "last l = NL" and n: "NL \<notin> set (butlast l)"
    by (simp_all add: whole_line_def)
  have l: "butlast l @ [NL] = l"
    using append_butlast_last_id [OF ne] by (simp only: la)
  have "first_line (butlast l @ NL # rest) = butlast l @ [NL]
      \<and> after_line (butlast l @ NL # rest) = rest"
    by (rule first_line_append [OF n])
  moreover have "butlast l @ NL # rest = l @ rest"
    using arg_cong [OF l, of "\<lambda>x. x @ rest"] by simp
  ultimately show "first_line (l @ rest) = l" and "after_line (l @ rest) = rest"
    by (simp_all only: l)
qed

lemma parse_line_skipped: "is_skipped cfg (lineno st) line \<Longrightarrow> parse_line cfg h st line = st"
  by (simp add: parse_line_def is_skipped_def Let_def)

lemma whole_line_step:
  assumes "whole_line cfg l"
  shows "parse_loop cfg h st (l @ rest) =
       (let st3 = parse_line cfg h (st\<lparr> lineno := lineno st + 1 \<rparr>) l
        in if stop_on_first_error cfg \<and> error st3 \<noteq> 0 then Some st3
           else parse_loop cfg h st3 rest)"
proof -
  from assms have wl: "l \<noteq> []" "NUL \<notin> set l" "length l < max_line cfg"
    by (simp_all add: whole_line_def)
  note fl = whole_line_first [OF assms, of rest]
  have ne: "l @ rest \<noteq> []" using wl(1) by simp
  have "0 < length l" using wl(1) by simp
  with wl(3) have m: "2 \<le> max_line cfg" by linarith
  have nul: "NUL \<notin> set (first_line (l @ rest))"
    unfolding fl(1) by (rule wl(2))
  from parse_loop_step [OF ne m nul, of h st]
  obtain k where k: "(k = 0) = (length (first_line (l @ rest)) < max_line cfg)"
    and eq: "parse_loop cfg h st (l @ rest) =
       (let st3 = parse_line cfg h ((set_error TooLong ^^ k) (st\<lparr> lineno := lineno st + 1 \<rparr>))
                    (take (max_line cfg - 1) (first_line (l @ rest)))
        in if stop_on_first_error cfg \<and> error st3 \<noteq> 0 then Some st3
           else parse_loop cfg h st3 (after_line (l @ rest)))"
    by (elim exE conjE)
  have k0: "k = 0" using k wl(3) unfolding fl(1) by simp
  have tk: "take (max_line cfg - 1) l = l"
    using wl(3) by simp
  have f0: "(set_error TooLong ^^ 0) x = x" for x :: "'a ini_state"
    by simp
  show ?thesis
    using eq unfolding k0 fl tk f0 .
qed

lemma skipped_lines:
  assumes "\<not> (stop_on_first_error cfg \<and> error st \<noteq> 0)"
    and "\<forall>i<length ls. whole_line cfg (ls ! i) \<and> is_skipped cfg (lineno st + 1 + int i) (ls ! i)"
  shows "parse_loop cfg h st (concat ls @ rest) =
           parse_loop cfg h (st\<lparr> lineno := lineno st + int (length ls) \<rparr>) rest"
  using assms
proof (induction ls arbitrary: st)
  case Nil
  show ?case by simp
next
  case (Cons l ls)
  define st1 where "st1 = st\<lparr> lineno := lineno st + 1 \<rparr>"
  from Cons.prems(2) have wl: "whole_line cfg l" and sk: "is_skipped cfg (lineno st1) l"
    by (auto simp: st1_def)
  have pl: "parse_line cfg h st1 l = st1"
    using sk by (rule parse_line_skipped)
  have run: "\<not> (stop_on_first_error cfg \<and> error st1 \<noteq> 0)"
    using Cons.prems(1) by (simp add: st1_def)
  have "parse_loop cfg h st (l @ concat ls @ rest) = parse_loop cfg h st1 (concat ls @ rest)"
    using whole_line_step [OF wl, of h st "concat ls @ rest"] run
    by (simp add: st1_def [symmetric] pl Let_def)
  moreover have "\<forall>i<length ls. whole_line cfg (ls ! i) \<and> is_skipped cfg (lineno st1 + 1 + int i) (ls ! i)"
  proof (intro allI impI)
    fix i assume "i < length ls"
    then have "Suc i < length (l # ls)" by simp
    with Cons.prems(2) have "whole_line cfg ((l # ls) ! Suc i) \<and>
        is_skipped cfg (lineno st + 1 + int (Suc i)) ((l # ls) ! Suc i)" by blast
    then show "whole_line cfg (ls ! i) \<and> is_skipped cfg (lineno st1 + 1 + int i) (ls ! i)"
      by (simp add: st1_def add.commute add.left_commute)
  qed
  ultimately show ?case
    using Cons.IH [OF run, of ] by (simp add: st1_def add.commute add.left_commute)
qed

lemma parse_line_continuation:
  assumes "allow_multiline cfg" and "prev_name st \<noteq> []"
    and "c \<noteq> []" and "isspace (hd c)" and "\<not> is_skipped cfg (lineno st) c"
  shows "parse_line cfg h st c =
     HANDLER h st (Some (prev_name st)) (Some (strip_comment cfg (ini_rstrip (ini_lskip c))))"
proof -
  have nb: "take 3 c \<noteq> BOM"
    using assms(3,4) by (cases c) (auto simp: BOM_def isspace_def)
  then have ls: "line_start cfg (lineno st) c = ini_lskip c"
    by (simp add: line_start_def)
  have sh: "length (ini_lskip c) < length c"
    using assms(3,4) by (cases c) (auto simp: ini_lskip_def intro: le_imp_less_Suc length_dropWhile_le)
  have ns: "\<not> strchr (start_comment_prefixes cfg) (deref (ini_rstrip (ini_lskip c)))"
    using assms(5) by (simp add: is_skipped_def ls)
  then have ne: "ini_rstrip (ini_lskip c) \<noteq> []"
    by (auto simp: strchr_def)
  show ?thesis
    using assms(1,2) ns ne sh
    by (simp add: parse_line_def ls Let_def continuation_line_def)
qed

text \<open>
  C9. While the loop runs, any number of whole lines that are blank or comments change
  nothing in the state but the line counter: the parse of the input behind them starts
  from the same section, the same remembered name, the same user data and the same error
  field. So with continuation mode on and a name remembered, an indented line that is
  neither blank nor a comment and comes after such lines is passed to the handler as a
  continuation: the key is the name remembered before the blank and comment lines, and
  the value is the line without its inline comment, trimmed.
\<close>

theorem blank_lines_keep_key:
  assumes "allow_multiline cfg" and "prev_name st \<noteq> []"
    and "\<not> (stop_on_first_error cfg \<and> error st \<noteq> 0)"
    and "\<forall>i<length ls. whole_line cfg (ls ! i) \<and> is_skipped cfg (lineno st + 1 + int i) (ls ! i)"
    and "whole_line cfg c" and "isspace (hd c)"
    and "\<not> is_skipped cfg (lineno st + 1 + int (length ls)) c"
  shows "parse_loop cfg h st (concat ls @ rest) =
           parse_loop cfg h (st\<lparr> lineno := lineno st + int (length ls) \<rparr>) rest \<and>
         parse_loop cfg h st (concat ls @ c @ rest) =
           (let st1 = HANDLER h (st\<lparr> lineno := lineno st + int (length ls) + 1 \<rparr>)
                        (Some (prev_name st)) (Some (strip_comment cfg (ini_rstrip (ini_lskip c))))
            in if stop_on_first_error cfg \<and> error st1 \<noteq> 0 then Some st1
               else parse_loop cfg h st1 rest)"
proof
  show "parse_loop cfg h st (concat ls @ rest) =
           parse_loop cfg h (st\<lparr> lineno := lineno st + int (length ls) \<rparr>) rest"
    using assms(3,4) by (rule skipped_lines)
next
  define st' where "st' = st\<lparr> lineno := lineno st + int (length ls) \<rparr>"
  define st1 where "st1 = st'\<lparr> lineno := lineno st' + 1 \<rparr>"
  have "parse_loop cfg h st (concat ls @ c @ rest) = parse_loop cfg h st' (c @ rest)"
    unfolding st'_def using assms(3,4) by (rule skipped_lines)
  also have "\<dots> = (let st3 = parse_line cfg h st1 c
        in if stop_on_first_error cfg \<and> error st3 \<noteq> 0 then Some st3
           else parse_loop cfg h st3 rest)"
    unfolding st1_def using assms(5) by (rule whole_line_step)
  also have "parse_line cfg h st1 c =
     HANDLER h st1 (Some (prev_name st1)) (Some (strip_comment cfg (ini_rstrip (ini_lskip c))))"
    using assms(1,2,5,6,7)
    by (intro parse_line_continuation) (simp_all add: st1_def st'_def whole_line_def add.commute add.left_commute)
  finally show "parse_loop cfg h st (concat ls @ c @ rest) =
           (let st1 = HANDLER h (st\<lparr> lineno := lineno st + int (length ls) + 1 \<rparr>)
                        (Some (prev_name st)) (Some (strip_comment cfg (ini_rstrip (ini_lskip c))))
            in if stop_on_first_error cfg \<and> error st1 \<noteq> 0 then Some st1
               else parse_loop cfg h st1 rest)"
    by (simp add: st1_def st'_def)
qed

theorem blank_lines_keep_key_witness:
  "allow_multiline default_config \<and>
   whole_line default_config [NL] \<and> is_skipped default_config 2 [NL] \<and>
   whole_line default_config (''; note'' @ [NL]) \<and> is_skipped default_config 3 (''; note'' @ [NL]) \<and>
   whole_line default_config (''  more'' @ [NL]) \<and> isspace (hd (''  more'' @ [NL])) \<and>
   \<not> is_skipped default_config 4 (''  more'' @ [NL]) \<and>
   parse_loop default_config accept (init_state ()\<lparr> lineno := 1, prev_name := ''key'' \<rparr>)
       (concat [[NL], ''; note'' @ [NL]] @ (''  more'' @ [NL]) @ [])
     = Some (init_state ()\<lparr> lineno := 4, prev_name := ''key'',
                trace := [Call 4 [] (Some ''key'') (Some ''more'')] \<rparr>)"
proof -
  let ?C = default_config
  let ?st = "init_state ()\<lparr> lineno := 1, prev_name := ''key'' \<rparr> :: unit ini_state"
  have a: "allow_multiline ?C" by (simp add: default_config_def)
  have b: "prev_name ?st \<noteq> []" by simp
  have c: "\<not> (stop_on_first_error ?C \<and> error ?st \<noteq> 0)" by (simp add: default_config_def)
  have w: "whole_line ?C [NL]" "whole_line ?C (''; note'' @ [NL])" "whole_line ?C (''  more'' @ [NL])"
    by (simp_all add: whole_line_def default_config_def NL_def NUL_def)
  have s: "is_skipped ?C 2 [NL]" "is_skipped ?C 3 (''; note'' @ [NL])" "\<not> is_skipped ?C 4 (''  more'' @ [NL])"
    by (simp_all add: is_skipped_def eval_defs)
  have sp: "isspace (hd (''  more'' @ [NL]))" by (simp add: isspace_def)
  have d: "\<forall>i<length [[NL], ''; note'' @ [NL]].
      whole_line ?C ([[NL], ''; note'' @ [NL]] ! i) \<and>
      is_skipped ?C (lineno ?st + 1 + int i) ([[NL], ''; note'' @ [NL]] ! i)"
    using w s by (simp add: less_Suc_eq nth_Cons' all_conj_distrib init_state_def)
  have e: "\<not> is_skipped ?C (lineno ?st + 1 + int (length [[NL], ''; note'' @ [NL]])) (''  more'' @ [NL])"
    using s by (simp add: init_state_def)
  have v: "strip_comment ?C (ini_rstrip (ini_lskip (''  more'' @ [NL]))) = ''more''"
    by (simp add: eval_defs)
  from blank_lines_keep_key [OF a b c d w(3) sp e, where h = accept and rest = "[]"]
  have "parse_loop ?C accept ?st (concat [[NL], ''; note'' @ [NL]] @ (''  more'' @ [NL]) @ [])
     = Some (init_state ()\<lparr> lineno := 4, prev_name := ''key'',
                trace := [Call 4 [] (Some ''key'') (Some ''more'')] \<rparr>)"
    unfolding v
    by (simp add: parse_loop_Nil HANDLER_def accept_def Let_def init_state_def default_config_def)
  with a w s sp show ?thesis by (simp only: simp_thms)
qed

subsection \<open>Continuation lines\<close>

text \<open>
  C5. With continuation mode enabled (as in the default configuration), the line
  \<open>key=first line\<close> followed by the line \<open>  second line\<close> makes the parser call the
  handler exactly twice, whatever the handler answers: on line 1 with key \<open>key\<close> and
  value \<open>first line\<close>, on line 2 with the same key and value \<open>second line\<close>.
\<close>

theorem continuation_two_events:
  "allow_multiline default_config \<and>
   ini_events default_config (''key=first line'' @ [NL] @ ''  second line'' @ [NL]) h u
     = Some [(1, [], Some ''key'', Some ''first line''),
             (2, [], Some ''key'', Some ''second line'')]"
  by (simp add: eval_defs)

end
